theory Spec2Isabelle
  imports Main
begin

section \<open>SimpleDOM trees\<close>

text \<open>
  The source is \<^verbatim>\<open>src/language/HTMLDOMDiff.js\<close>: \<^verbatim>\<open>domdiff(oldNode, newNode)\<close> walks two
  SimpleDOM trees and returns a list of edit objects.

  A SimpleDOM node is either an element (it has a \<^verbatim>\<open>children\<close> array, so
  \<^verbatim>\<open>node.children\<close> is truthy) or a text node (no \<^verbatim>\<open>children\<close> property). The root of
  a tree and every value of a \<^verbatim>\<open>nodeMap\<close> is an element.

  The \<^verbatim>\<open>parent\<close> back-reference of an element is represented by the \<^verbatim>\<open>tagID\<close> of the
  parent (\<open>None\<close> is \<^verbatim>\<open>null\<close>): that is what \<^verbatim>\<open>getParentID\<close> reads. A child \<open>c\<close> taken
  from \<^verbatim>\<open>P.children\<close> has \<^verbatim>\<open>c.parent === P\<close>, so where the source reads
  \<^verbatim>\<open>currentChild.parent.tagID\<close>, \<^verbatim>\<open>oldChild.parent.tagID\<close> or
  \<^verbatim>\<open>oldChild.parent.children\<close> the model reads \<^verbatim>\<open>currentParent\<close> or \<^verbatim>\<open>oldParent\<close>.

  An attributes object is an association list in the enumeration order of
  \<^verbatim>\<open>Object.keys\<close>; the keys of a JavaScript object are distinct.
\<close>

type_synonym attrs = "(string \<times> string) list"

datatype element =
  Element (tag: string) (tagID: int) (attributes: attrs) (children: "node list")
    (parent: "int option") (attributeSignature: nat) (childSignature: nat)
    (subtreeSignature: nat)
and node = Elem element | Text (content: string) (textSignature: nat)

record tree =
  root :: element
  nodeMap :: "int \<rightharpoonup> element"

section \<open>Edit objects\<close>

text \<open>
  An edit is a JavaScript object whose properties are added and deleted while it is
  pending. A property that is absent is \<open>None\<close> (\<open>False\<close> for the flags, which are only
  ever set to \<^verbatim>\<open>true\<close>); \<open>eParentID = Some None\<close> is \<^verbatim>\<open>parentID: null\<close>. The field
  \<open>eX\<close> is the property \<^verbatim>\<open>x\<close> of the source.
\<close>

datatype editType = elementInsert | elementDelete | elementMove | textInsert | textDelete
  | textReplace | attrAdd | attrChange | attrDelete | rememberNodes

record edit =
  eType :: editType
  eTag :: "string option"
  eTagID :: "int option"
  eParentID :: "int option option"
  eAttributes :: "attrs option"
  eAttribute :: "string option"
  eValue :: "string option"
  eContent :: "string option"
  eAfterID :: "int option"
  eBeforeID :: "int option"
  eFirstChild :: bool
  eLastChild :: bool
  eBeforeText :: bool
  eTagIDs :: "int list option"

definition newEdit :: "editType \<Rightarrow> edit" where
  "newEdit t = \<lparr>eType = t, eTag = None, eTagID = None, eParentID = None, eAttributes = None,
     eAttribute = None, eValue = None, eContent = None, eAfterID = None, eBeforeID = None,
     eFirstChild = False, eLastChild = False, eBeforeText = False, eTagIDs = None\<rparr>"

section \<open>generateAttributeEdits\<close>

text \<open>\<^verbatim>\<open>delete oldAttributes[attributeName]\<close> on the shallow copy.\<close>

definition deleteAttribute :: "string \<Rightarrow> attrs \<Rightarrow> attrs" where
  "deleteAttribute attributeName as = filter (\<lambda>p. fst p \<noteq> attributeName) as"

text \<open>
  The first \<^verbatim>\<open>forEach\<close>, over \<^verbatim>\<open>Object.keys(newAttributes)\<close>: it threads the copy
  \<open>oldAttributes\<close> and the edit list.
\<close>

fun newAttributesLoop ::
  "int \<Rightarrow> attrs \<Rightarrow> string list \<Rightarrow> attrs \<Rightarrow> edit list \<Rightarrow> attrs \<times> edit list" where
  "newAttributesLoop oldTagID newAttributes [] oldAttributes es = (oldAttributes, es)"
| "newAttributesLoop oldTagID newAttributes (attributeName # names) oldAttributes es =
     newAttributesLoop oldTagID newAttributes names (deleteAttribute attributeName oldAttributes)
       (if map_of oldAttributes attributeName \<noteq> map_of newAttributes attributeName
        then es @ [(newEdit (if attributeName \<in> set (map fst oldAttributes)
                             then attrChange else attrAdd))
                     \<lparr>eTagID := Some oldTagID, eAttribute := Some attributeName,
                      eValue := map_of newAttributes attributeName\<rparr>]
        else es)"

definition generateAttributeEdits :: "edit list \<Rightarrow> element \<Rightarrow> element \<Rightarrow> edit list" where
  "generateAttributeEdits es oldNode newNode =
     (let (oldAttributes, es1) =
            newAttributesLoop (tagID oldNode) (attributes newNode)
              (map fst (attributes newNode)) (attributes oldNode) es
      in es1 @ map (\<lambda>attributeName.
                      (newEdit attrDelete)\<lparr>eTagID := Some (tagID oldNode),
                                            eAttribute := Some attributeName\<rparr>)
                 (map fst oldAttributes))"

definition getParentID :: "element \<Rightarrow> int option" where
  "getParentID n = parent n"

section \<open>generateChildEdits\<close>

text \<open>
  The variables \<^verbatim>\<open>domdiff\<close> closes over (\<open>dstate\<close>) and, added to them, the locals of
  one call of \<^verbatim>\<open>generateChildEdits\<close> (\<open>cstate\<close>). \<^verbatim>\<open>queue.push\<close> appends and
  \<^verbatim>\<open>queue.pop\<close> takes the last element. \<open>console\<close> is what \<^verbatim>\<open>console.error\<close> has
  printed, one entry per call.
\<close>

datatype consoleError =
  NoInsertDelete \<comment> \<open>"Two elements have different tag IDs and there was no insert/delete"\<close>
  | FailedElementDelete node \<comment> \<open>"failed to add elementDelete for remaining element"\<close>
  | FailedElementInsert \<comment> \<open>"failed to add elementInsert for remaining element"\<close>

record dstate =
  queue :: "element list"
  edits :: "edit list"
  moves :: "int list"
  console :: "consoleError list"

record cstate = dstate +
  currentIndex :: nat
  oldIndex :: nat
  newEdits :: "edit list"
  textAfterID :: "int option"

text \<open>\<^verbatim>\<open>if (textAfterID)\<close>: \<^verbatim>\<open>undefined\<close> and \<^verbatim>\<open>0\<close> are falsy.\<close>

definition truthy :: "int option \<Rightarrow> bool" where
  "truthy v = (case v of None \<Rightarrow> False | Some n \<Rightarrow> n \<noteq> 0)"

text \<open>\<^verbatim>\<open>oldParent ? oldParent.children : []\<close>\<close>

definition oldChildrenOf :: "element option \<Rightarrow> node list" where
  "oldChildrenOf oldParent = (case oldParent of None \<Rightarrow> [] | Some p \<Rightarrow> children p)"

text \<open>What \<^verbatim>\<open>finalizeNewEdits\<close> does to one pending edit.\<close>

definition beforeIDEdit :: "int \<Rightarrow> edit \<Rightarrow> edit" where
  "beforeIDEdit beforeID e =
     (if eType e \<noteq> elementDelete then e\<lparr>eBeforeID := Some beforeID\<rparr> else e)"

definition finalizeNewEdits :: "int \<Rightarrow> cstate \<Rightarrow> cstate" where
  "finalizeNewEdits beforeID s =
     s\<lparr>edits := edits s @ map (beforeIDEdit beforeID) (newEdits s),
       newEdits := [],
       textAfterID := Some beforeID\<rparr>"

definition addElementInsert ::
  "(int \<rightharpoonup> element) \<Rightarrow> element \<Rightarrow> element \<Rightarrow> cstate \<Rightarrow> bool \<times> cstate" where
  "addElementInsert oldNodeMap currentParent currentChild s =
     (if oldNodeMap (tagID currentChild) = None
      then (True,
            s\<lparr>newEdits := newEdits s @
                 [(newEdit elementInsert)
                    \<lparr>eTag := Some (tag currentChild), eTagID := Some (tagID currentChild),
                     eParentID := Some (Some (tagID currentParent)),
                     eAttributes := Some (attributes currentChild)\<rparr>],
              queue := queue s @ [currentChild],
              textAfterID := Some (tagID currentChild),
              currentIndex := currentIndex s + 1\<rparr>)
      else (False, s))"

definition addElementDelete ::
  "(int \<rightharpoonup> element) \<Rightarrow> element \<Rightarrow> cstate \<Rightarrow> bool \<times> cstate" where
  "addElementDelete newNodeMap oldChild s =
     (if newNodeMap (tagID oldChild) = None
      then (True,
            s\<lparr>newEdits := newEdits s @
                 [(newEdit elementDelete)\<lparr>eTagID := Some (tagID oldChild)\<rparr>],
              oldIndex := oldIndex s + 1\<rparr>)
      else (False, s))"

definition addTextInsert :: "element \<Rightarrow> string \<Rightarrow> cstate \<Rightarrow> cstate" where
  "addTextInsert currentParent currentContent s =
     (let e = (newEdit textInsert)
                \<lparr>eContent := Some currentContent,
                 eParentID := Some (Some (tagID currentParent))\<rparr>;
          e' = (if truthy (textAfterID s) then e\<lparr>eAfterID := textAfterID s\<rparr>
                else e\<lparr>eFirstChild := True\<rparr>)
      in s\<lparr>newEdits := newEdits s @ [e'], currentIndex := currentIndex s + 1\<rparr>)"

text \<open>
  \<^verbatim>\<open>prevNode\<close>: the previous child of the new tree; reading an array past its end
  gives \<^verbatim>\<open>undefined\<close>, which is falsy as \<^verbatim>\<open>null\<close> is.
\<close>

definition prevNode :: "element \<Rightarrow> cstate \<Rightarrow> node option" where
  "prevNode currentParent s =
     (if currentIndex s > 0 \<and> currentIndex s - 1 < length (children currentParent)
      then Some (children currentParent ! (currentIndex s - 1)) else None)"

text \<open>
  \<^verbatim>\<open>addTextDelete\<close>. \<^verbatim>\<open>previousEdit.afterID === textAfterID\<close> compares two values that
  may both be \<^verbatim>\<open>undefined\<close>. \<^verbatim>\<open>oldChild.parent\<close> is \<^verbatim>\<open>oldParent\<close>.
\<close>

definition addTextDelete :: "element \<Rightarrow> element option \<Rightarrow> cstate \<Rightarrow> cstate" where
  "addTextDelete currentParent oldParent s =
     (let e = (case prevNode currentParent s of
                 Some (Text prevContent _) \<Rightarrow>
                   (newEdit textReplace)\<lparr>eContent := Some prevContent\<rparr>
               | _ \<Rightarrow> newEdit textDelete)
      in if newEdits s \<noteq> [] \<and> eType (last (newEdits s)) = textReplace
            \<and> eAfterID (last (newEdits s)) = textAfterID s
         then s\<lparr>oldIndex := oldIndex s + 1\<rparr>
         else
           (let e1 = e\<lparr>eParentID := Some (map_option tagID oldParent)\<rparr>;
                e2 = (if length (oldChildrenOf oldParent) = 1 then e1
                      else if truthy (textAfterID s) then e1\<lparr>eAfterID := textAfterID s\<rparr>
                      else e1)
            in s\<lparr>newEdits := newEdits s @ [e2], oldIndex := oldIndex s + 1\<rparr>))"

definition addElementMove ::
  "(int \<rightharpoonup> element) \<Rightarrow> element \<Rightarrow> element \<Rightarrow> cstate \<Rightarrow> bool \<times> cstate" where
  "addElementMove oldNodeMap currentParent currentChild s =
     (case oldNodeMap (tagID currentChild) of
        Some possiblyMovedElement \<Rightarrow>
          if Some (tagID currentParent) \<noteq> getParentID possiblyMovedElement
          then (True,
                s\<lparr>moves := moves s @ [tagID currentChild],
                  newEdits := newEdits s @
                    [(newEdit elementMove)
                       \<lparr>eTagID := Some (tagID currentChild),
                        eParentID := Some (Some (tagID currentParent))\<rparr>],
                  currentIndex := currentIndex s + 1\<rparr>)
          else (False, s)
      | None \<Rightarrow> (False, s))"

text \<open>What \<^verbatim>\<open>fixupElementInsert\<close> does to one pending edit.\<close>

definition beforeTextEdit :: "edit \<Rightarrow> edit" where
  "beforeTextEdit e = (if eType e = elementInsert then e\<lparr>eBeforeText := True\<rparr> else e)"

definition fixupElementInsert :: "cstate \<Rightarrow> cstate" where
  "fixupElementInsert s = s\<lparr>newEdits := map beforeTextEdit (newEdits s)\<rparr>"

definition hasMoved :: "(int \<rightharpoonup> element) \<Rightarrow> node \<Rightarrow> bool" where
  "hasMoved newNodeMap oldChild =
     (case oldChild of
        Text _ _ \<Rightarrow> False
      | Elem oe \<Rightarrow>
          (case newNodeMap (tagID oe) of
             None \<Rightarrow> False
           | Some oldChildInNewTree \<Rightarrow> getParentID oe \<noteq> getParentID oldChildInNewTree))"

text \<open>
  One pass through the body of the first \<^verbatim>\<open>while\<close> loop (\<^verbatim>\<open>continue\<close> ends the pass).
\<close>

definition compareStep ::
  "(int \<rightharpoonup> element) \<Rightarrow> (int \<rightharpoonup> element) \<Rightarrow> element \<Rightarrow> element option \<Rightarrow> cstate \<Rightarrow> cstate"
  where
  "compareStep oldNodeMap newNodeMap currentParent oldParent s =
     (let currentChild = children currentParent ! currentIndex s;
          (moved, s1) = (case currentChild of
                           Elem ce \<Rightarrow> addElementMove oldNodeMap currentParent ce s
                         | Text _ _ \<Rightarrow> (False, s))
      in if moved then s1
         else
           (let oldChild = oldChildrenOf oldParent ! oldIndex s1
            in if hasMoved newNodeMap oldChild then s1\<lparr>oldIndex := oldIndex s1 + 1\<rparr>
               else
                 (case (currentChild, oldChild) of
                    (Elem ce, Text _ _) \<Rightarrow>
                      snd (addElementInsert oldNodeMap currentParent ce
                             (addTextDelete currentParent oldParent s1))
                  | (Text currentContent _, Elem oe) \<Rightarrow>
                      (case addElementDelete newNodeMap oe s1 of
                         (True, s2) \<Rightarrow> s2
                       | (False, s2) \<Rightarrow> addTextInsert currentParent currentContent s2)
                  | (Elem ce, Elem oe) \<Rightarrow>
                      if tagID ce \<noteq> tagID oe
                      then (case addElementInsert oldNodeMap currentParent ce s1 of
                              (True, s2) \<Rightarrow> s2
                            | (False, s2) \<Rightarrow>
                                (case addElementDelete newNodeMap oe s2 of
                                   (True, s3) \<Rightarrow> s3
                                 | (False, s3) \<Rightarrow>
                                     s3\<lparr>console := console s3 @ [NoInsertDelete],
                                        currentIndex := currentIndex s3 + 1,
                                        oldIndex := oldIndex s3 + 1\<rparr>))
                      else (let s2 = finalizeNewEdits (tagID oe) s1
                            in s2\<lparr>currentIndex := currentIndex s2 + 1,
                                  oldIndex := oldIndex s2 + 1\<rparr>)
                  | (Text currentContent currentSignature, Text _ oldSignature) \<Rightarrow>
                      (let s2 = (if currentSignature \<noteq> oldSignature
                                 then (let e = (newEdit textReplace)
                                                 \<lparr>eContent := Some currentContent,
                                                  eParentID := Some (Some (tagID currentParent))\<rparr>;
                                           e' = (if truthy (textAfterID s1)
                                                 then e\<lparr>eAfterID := textAfterID s1\<rparr> else e)
                                       in s1\<lparr>newEdits := newEdits s1 @ [e']\<rparr>)
                                 else fixupElementInsert s1)
                       in s2\<lparr>currentIndex := currentIndex s2 + 1,
                             oldIndex := oldIndex s2 + 1\<rparr>))))"

text \<open>One pass through the loop over the remaining children of the old tree.\<close>

definition oldDrainStep ::
  "(int \<rightharpoonup> element) \<Rightarrow> element \<Rightarrow> element option \<Rightarrow> cstate \<Rightarrow> cstate" where
  "oldDrainStep newNodeMap currentParent oldParent s =
     (let oldChild = oldChildrenOf oldParent ! oldIndex s
      in if hasMoved newNodeMap oldChild then s\<lparr>oldIndex := oldIndex s + 1\<rparr>
         else
           (case oldChild of
              Elem oe \<Rightarrow>
                (case addElementDelete newNodeMap oe s of
                   (True, s1) \<Rightarrow> s1
                 | (False, s1) \<Rightarrow>
                     s1\<lparr>console := console s1 @ [FailedElementDelete oldChild],
                        oldIndex := oldIndex s1 + 1\<rparr>)
            | Text _ _ \<Rightarrow> addTextDelete currentParent oldParent s))"

text \<open>One pass through the loop over the remaining children of the new tree.\<close>

definition newDrainStep :: "(int \<rightharpoonup> element) \<Rightarrow> element \<Rightarrow> cstate \<Rightarrow> cstate" where
  "newDrainStep oldNodeMap currentParent s =
     (case children currentParent ! currentIndex s of
        Elem ce \<Rightarrow>
          (case addElementMove oldNodeMap currentParent ce s of
             (True, s1) \<Rightarrow> s1
           | (False, s1) \<Rightarrow>
               (case addElementInsert oldNodeMap currentParent ce s1 of
                  (True, s2) \<Rightarrow> s2
                | (False, s2) \<Rightarrow>
                    s2\<lparr>console := console s2 @ [FailedElementInsert],
                       currentIndex := currentIndex s2 + 1\<rparr>))
      | Text currentContent _ \<Rightarrow> addTextInsert currentParent currentContent s)"


subsection \<open>The three loops\<close>

lemma addElementMove_idx [simp]:
  "oldIndex (snd (addElementMove om cp ce s)) = oldIndex s"
  "currentIndex (snd (addElementMove om cp ce s)) =
     (if fst (addElementMove om cp ce s) then currentIndex s + 1 else currentIndex s)"
  by (auto simp: addElementMove_def split: option.splits)

lemma addElementInsert_idx [simp]:
  "oldIndex (snd (addElementInsert om cp ce s)) = oldIndex s"
  "currentIndex (snd (addElementInsert om cp ce s)) =
     (if fst (addElementInsert om cp ce s) then currentIndex s + 1 else currentIndex s)"
  by (auto simp: addElementInsert_def)

lemma addElementDelete_idx [simp]:
  "currentIndex (snd (addElementDelete nm oe s)) = currentIndex s"
  "oldIndex (snd (addElementDelete nm oe s)) =
     (if fst (addElementDelete nm oe s) then oldIndex s + 1 else oldIndex s)"
  by (auto simp: addElementDelete_def)

lemma addTextInsert_idx [simp]:
  "oldIndex (addTextInsert cp c s) = oldIndex s"
  "currentIndex (addTextInsert cp c s) = currentIndex s + 1"
  by (auto simp: addTextInsert_def Let_def)

lemma addTextDelete_idx [simp]:
  "oldIndex (addTextDelete cp op s) = oldIndex s + 1"
  "currentIndex (addTextDelete cp op s) = currentIndex s"
  by (auto simp: addTextDelete_def Let_def)

lemma finalizeNewEdits_idx [simp]:
  "oldIndex (finalizeNewEdits b s) = oldIndex s"
  "currentIndex (finalizeNewEdits b s) = currentIndex s"
  by (auto simp: finalizeNewEdits_def)

lemma fixupElementInsert_idx [simp]:
  "oldIndex (fixupElementInsert s) = oldIndex s"
  "currentIndex (fixupElementInsert s) = currentIndex s"
  by (auto simp: fixupElementInsert_def)

lemma compareStep_idx:
  "currentIndex s \<le> currentIndex (compareStep om nm cp op s) \<and>
   oldIndex s \<le> oldIndex (compareStep om nm cp op s) \<and>
   currentIndex s + oldIndex s
     < currentIndex (compareStep om nm cp op s) + oldIndex (compareStep om nm cp op s)"
  unfolding compareStep_def Let_def
  by (auto split: node.splits bool.splits simp: split_beta)

lemma oldDrainStep_idx [simp]:
  "currentIndex (oldDrainStep nm cp op s) = currentIndex s"
  "oldIndex (oldDrainStep nm cp op s) = oldIndex s + 1"
  unfolding oldDrainStep_def Let_def
  by (auto split: node.splits bool.splits simp: split_beta)

lemma newDrainStep_idx [simp]:
  "currentIndex (newDrainStep om cp s) = currentIndex s + 1"
  "oldIndex (newDrainStep om cp s) = oldIndex s"
  unfolding newDrainStep_def Let_def
  by (auto split: node.splits bool.splits simp: split_beta)

text \<open>
  \<^verbatim>\<open>while (currentIndex < currentChildren.length && oldIndex < oldChildren.length)\<close>
\<close>

function compareLoop ::
  "(int \<rightharpoonup> element) \<Rightarrow> (int \<rightharpoonup> element) \<Rightarrow> element \<Rightarrow> element option \<Rightarrow> cstate \<Rightarrow> cstate"
  where
  "compareLoop oldNodeMap newNodeMap currentParent oldParent s =
     (if currentIndex s < length (children currentParent)
         \<and> oldIndex s < length (oldChildrenOf oldParent)
      then compareLoop oldNodeMap newNodeMap currentParent oldParent
             (compareStep oldNodeMap newNodeMap currentParent oldParent s)
      else s)"
  by pat_completeness auto
termination
proof (relation "measure (\<lambda>(om, nm, cp, op, s).
         (length (children cp) - currentIndex s) + (length (oldChildrenOf op) - oldIndex s))")
  show "wf (measure (\<lambda>(om, nm, cp, op, s).
         (length (children cp) - currentIndex s) + (length (oldChildrenOf op) - oldIndex s)))"
    by simp
next
  fix oldNodeMap newNodeMap :: "int \<rightharpoonup> element"
    and currentParent :: element and oldParent :: "element option" and s :: cstate
  assume "currentIndex s < length (children currentParent)
            \<and> oldIndex s < length (oldChildrenOf oldParent)"
  with compareStep_idx [of s oldNodeMap newNodeMap currentParent oldParent]
  show "((oldNodeMap, newNodeMap, currentParent, oldParent,
           compareStep oldNodeMap newNodeMap currentParent oldParent s),
          (oldNodeMap, newNodeMap, currentParent, oldParent, s))
        \<in> measure (\<lambda>(om, nm, cp, op, s).
            (length (children cp) - currentIndex s) + (length (oldChildrenOf op) - oldIndex s))"
    by simp linarith
qed

text \<open>\<^verbatim>\<open>while (oldIndex < oldChildren.length)\<close>\<close>

function oldDrainLoop ::
  "(int \<rightharpoonup> element) \<Rightarrow> element \<Rightarrow> element option \<Rightarrow> cstate \<Rightarrow> cstate" where
  "oldDrainLoop newNodeMap currentParent oldParent s =
     (if oldIndex s < length (oldChildrenOf oldParent)
      then oldDrainLoop newNodeMap currentParent oldParent
             (oldDrainStep newNodeMap currentParent oldParent s)
      else s)"
  by pat_completeness auto
termination
  by (relation "measure (\<lambda>(nm, cp, op, s). length (oldChildrenOf op) - oldIndex s)") auto

text \<open>\<^verbatim>\<open>while (currentIndex < currentChildren.length)\<close>\<close>

function newDrainLoop :: "(int \<rightharpoonup> element) \<Rightarrow> element \<Rightarrow> cstate \<Rightarrow> cstate" where
  "newDrainLoop oldNodeMap currentParent s =
     (if currentIndex s < length (children currentParent)
      then newDrainLoop oldNodeMap currentParent (newDrainStep oldNodeMap currentParent s)
      else s)"
  by pat_completeness auto
termination
  by (relation "measure (\<lambda>(om, cp, s). length (children cp) - currentIndex s)") auto

declare compareLoop.simps [simp del] oldDrainLoop.simps [simp del] newDrainLoop.simps [simp del]

text \<open>
  The last \<^verbatim>\<open>forEach\<close> of \<^verbatim>\<open>generateChildEdits\<close>: pending inserts and moves get
  \<^verbatim>\<open>lastChild\<close> and lose \<^verbatim>\<open>firstChild\<close> and \<^verbatim>\<open>afterID\<close>.
\<close>

definition lastChildEdit :: "edit \<Rightarrow> edit" where
  "lastChildEdit e =
     (if eType e = textInsert \<or> eType e = elementInsert \<or> eType e = elementMove
      then e\<lparr>eLastChild := True, eFirstChild := False, eAfterID := None\<rparr> else e)"

definition generateChildEdits ::
  "(int \<rightharpoonup> element) \<Rightarrow> (int \<rightharpoonup> element) \<Rightarrow> element \<Rightarrow> element option \<Rightarrow> dstate \<Rightarrow> dstate"
  where
  "generateChildEdits oldNodeMap newNodeMap currentParent oldParent d =
     (let s0 = \<lparr>queue = queue d, edits = edits d, moves = moves d, console = console d,
                currentIndex = 0, oldIndex = 0, newEdits = [], textAfterID = None\<rparr>;
          s1 = compareLoop oldNodeMap newNodeMap currentParent oldParent s0;
          s2 = oldDrainLoop newNodeMap currentParent oldParent s1;
          s3 = newDrainLoop oldNodeMap currentParent s2
      in \<lparr>queue = queue s3, edits = edits s3 @ map lastChildEdit (newEdits s3),
          moves = moves s3, console = console s3\<rparr>)"

section \<open>The driver\<close>

text \<open>
  The measure for the driver's loop: the sizes of the queued elements. A call of
  \<^verbatim>\<open>generateChildEdits\<close> queues only children that are not in the old \<^verbatim>\<open>nodeMap\<close>
  (\<open>insertWeight\<close>), \<^verbatim>\<open>queuePush\<close> only children that are (\<open>pushWeight\<close>).
\<close>

definition queueSize :: "element list \<Rightarrow> nat" where
  "queueSize q = sum_list (map size q)"

definition insertWeight :: "(int \<rightharpoonup> element) \<Rightarrow> node list \<Rightarrow> nat" where
  "insertWeight om ns =
     sum_list (map (\<lambda>n. case n of Elem e \<Rightarrow> if om (tagID e) = None then size e else 0
                          | Text _ _ \<Rightarrow> 0) ns)"

definition pushWeight :: "(int \<rightharpoonup> element) \<Rightarrow> node list \<Rightarrow> nat" where
  "pushWeight om ns =
     sum_list (map (\<lambda>n. case n of Elem e \<Rightarrow> if om (tagID e) = None then 0 else size e
                          | Text _ _ \<Rightarrow> 0) ns)"

lemma queueSize_append [simp]: "queueSize (q @ [e]) = queueSize q + size e"
  by (simp add: queueSize_def)

lemma insertWeight_drop:
  "i < length ns \<Longrightarrow> insertWeight om (drop i ns) =
     (case ns ! i of Elem e \<Rightarrow> if om (tagID e) = None then size e else 0 | Text _ _ \<Rightarrow> 0)
       + insertWeight om (drop (Suc i) ns)"
  by (simp add: insertWeight_def flip: Cons_nth_drop_Suc)

lemma addElementMove_queue [simp]: "queue (snd (addElementMove om cp ce s)) = queue s"
  by (auto simp: addElementMove_def split: option.splits)

lemma addElementInsert_queue [simp]:
  "queue (snd (addElementInsert om cp ce s)) =
     (if fst (addElementInsert om cp ce s) then queue s @ [ce] else queue s)"
  by (auto simp: addElementInsert_def)

lemma addElementInsert_fst: "fst (addElementInsert om cp ce s) = (om (tagID ce) = None)"
  by (auto simp: addElementInsert_def)

lemma addElementDelete_queue [simp]: "queue (snd (addElementDelete nm oe s)) = queue s"
  by (auto simp: addElementDelete_def)

lemma addTextInsert_queue [simp]: "queue (addTextInsert cp c s) = queue s"
  by (auto simp: addTextInsert_def Let_def)

lemma addTextDelete_queue [simp]: "queue (addTextDelete cp op s) = queue s"
  by (auto simp: addTextDelete_def Let_def)

lemma finalizeNewEdits_queue [simp]: "queue (finalizeNewEdits b s) = queue s"
  by (auto simp: finalizeNewEdits_def)

lemma fixupElementInsert_queue [simp]: "queue (fixupElementInsert s) = queue s"
  by (auto simp: fixupElementInsert_def)

lemma compareStep_queue:
  "currentIndex s < length (children cp) \<Longrightarrow>
   queueSize (queue (compareStep om nm cp op s))
     + insertWeight om (drop (currentIndex (compareStep om nm cp op s)) (children cp))
   \<le> queueSize (queue s) + insertWeight om (drop (currentIndex s) (children cp))"
  unfolding compareStep_def Let_def
  by (auto split: node.splits bool.splits simp: split_beta insertWeight_drop addElementInsert_fst)

lemma newDrainStep_queue:
  "currentIndex s < length (children cp) \<Longrightarrow>
   queueSize (queue (newDrainStep om cp s))
     + insertWeight om (drop (currentIndex (newDrainStep om cp s)) (children cp))
   \<le> queueSize (queue s) + insertWeight om (drop (currentIndex s) (children cp))"
  unfolding newDrainStep_def Let_def
  by (auto split: node.splits bool.splits simp: split_beta insertWeight_drop addElementInsert_fst)

lemma oldDrainStep_queue [simp]: "queue (oldDrainStep nm cp op s) = queue s"
  unfolding oldDrainStep_def Let_def
  by (auto split: node.splits bool.splits simp: split_beta)

lemma compareLoop_step:
  "currentIndex s < length (children cp) \<Longrightarrow> oldIndex s < length (oldChildrenOf op) \<Longrightarrow>
   compareLoop om nm cp op s = compareLoop om nm cp op (compareStep om nm cp op s)"
  by (subst compareLoop.simps) simp

lemma compareLoop_stop:
  "\<not> (currentIndex s < length (children cp) \<and> oldIndex s < length (oldChildrenOf op)) \<Longrightarrow>
   compareLoop om nm cp op s = s"
  by (subst compareLoop.simps) auto

lemma oldDrainLoop_step:
  "oldIndex s < length (oldChildrenOf op) \<Longrightarrow>
   oldDrainLoop nm cp op s = oldDrainLoop nm cp op (oldDrainStep nm cp op s)"
  by (subst oldDrainLoop.simps) simp

lemma oldDrainLoop_stop:
  "\<not> oldIndex s < length (oldChildrenOf op) \<Longrightarrow> oldDrainLoop nm cp op s = s"
  by (subst oldDrainLoop.simps) simp

lemma newDrainLoop_step:
  "currentIndex s < length (children cp) \<Longrightarrow>
   newDrainLoop om cp s = newDrainLoop om cp (newDrainStep om cp s)"
  by (subst newDrainLoop.simps) simp

lemma newDrainLoop_stop:
  "\<not> currentIndex s < length (children cp) \<Longrightarrow> newDrainLoop om cp s = s"
  by (subst newDrainLoop.simps) simp

lemma compareLoop_queue:
  "queueSize (queue (compareLoop om nm cp op s))
     + insertWeight om (drop (currentIndex (compareLoop om nm cp op s)) (children cp))
   \<le> queueSize (queue s) + insertWeight om (drop (currentIndex s) (children cp))"
proof (induction om nm cp op s rule: compareLoop.induct)
  case (1 om nm cp op s)
  show ?case
  proof (cases "currentIndex s < length (children cp) \<and> oldIndex s < length (oldChildrenOf op)")
    case True
    then have "compareLoop om nm cp op s = compareLoop om nm cp op (compareStep om nm cp op s)"
      by (simp add: compareLoop_step)
    with 1 [OF True] compareStep_queue [of s cp om nm op] True show ?thesis
      by simp
  next
    case False
    then have "compareLoop om nm cp op s = s" by (rule compareLoop_stop)
    then show ?thesis by simp
  qed
qed

lemma oldDrainLoop_frame:
  "queue (oldDrainLoop nm cp op s) = queue s \<and>
   currentIndex (oldDrainLoop nm cp op s) = currentIndex s"
proof (induction nm cp op s rule: oldDrainLoop.induct)
  case (1 nm cp op s)
  show ?case
  proof (cases "oldIndex s < length (oldChildrenOf op)")
    case True
    then have "oldDrainLoop nm cp op s = oldDrainLoop nm cp op (oldDrainStep nm cp op s)"
      by (rule oldDrainLoop_step)
    with 1 [OF True] show ?thesis by simp
  next
    case False
    then have "oldDrainLoop nm cp op s = s" by (rule oldDrainLoop_stop)
    then show ?thesis by simp
  qed
qed

lemmas oldDrainLoop_queue [simp] = oldDrainLoop_frame [THEN conjunct1]
lemmas oldDrainLoop_currentIndex [simp] = oldDrainLoop_frame [THEN conjunct2]

lemma newDrainLoop_queue:
  "queueSize (queue (newDrainLoop om cp s))
     + insertWeight om (drop (currentIndex (newDrainLoop om cp s)) (children cp))
   \<le> queueSize (queue s) + insertWeight om (drop (currentIndex s) (children cp))"
proof (induction om cp s rule: newDrainLoop.induct)
  case (1 om cp s)
  show ?case
  proof (cases "currentIndex s < length (children cp)")
    case True
    then have "newDrainLoop om cp s = newDrainLoop om cp (newDrainStep om cp s)"
      by (rule newDrainLoop_step)
    with 1 [OF True] newDrainStep_queue [OF True, of om] show ?thesis
      by simp
  next
    case False
    then have "newDrainLoop om cp s = s" by (rule newDrainLoop_stop)
    then show ?thesis by simp
  qed
qed

lemma generateChildEdits_queue:
  "queueSize (queue (generateChildEdits om nm cp op d))
     \<le> queueSize (queue d) + insertWeight om (children cp)"
proof -
  define s0 :: cstate where "s0 = \<lparr>queue = queue d, edits = edits d, moves = moves d, console = console d,
                currentIndex = 0, oldIndex = 0, newEdits = [], textAfterID = None\<rparr>"
  define s1 where "s1 = compareLoop om nm cp op s0"
  define s2 where "s2 = oldDrainLoop nm cp op s1"
  define s3 where "s3 = newDrainLoop om cp s2"
  have "queueSize (queue s3) + insertWeight om (drop (currentIndex s3) (children cp))
        \<le> queueSize (queue s2) + insertWeight om (drop (currentIndex s2) (children cp))"
    unfolding s3_def by (rule newDrainLoop_queue)
  also have "\<dots> = queueSize (queue s1) + insertWeight om (drop (currentIndex s1) (children cp))"
    unfolding s2_def by simp
  also have "\<dots> \<le> queueSize (queue s0) + insertWeight om (drop (currentIndex s0) (children cp))"
    unfolding s1_def by (rule compareLoop_queue)
  finally have "queueSize (queue s3) \<le> queueSize (queue d) + insertWeight om (children cp)"
    by (simp add: s0_def)
  then show ?thesis
    by (simp add: generateChildEdits_def Let_def s0_def s1_def s2_def s3_def)
qed


text \<open>
  \<^verbatim>\<open>queuePush\<close>: only elements that are in the old \<^verbatim>\<open>nodeMap\<close> are queued.
\<close>

definition queuePush :: "(int \<rightharpoonup> element) \<Rightarrow> node \<Rightarrow> dstate \<Rightarrow> dstate" where
  "queuePush oldNodeMap n d =
     (case n of
        Elem e \<Rightarrow> if oldNodeMap (tagID e) \<noteq> None then d\<lparr>queue := queue d @ [e]\<rparr> else d
      | Text _ _ \<Rightarrow> d)"

text \<open>
  The body of the \<^verbatim>\<open>do ... while (queue.length)\<close> loop. The queue is never empty when
  the body starts (it holds \<^verbatim>\<open>newNode\<close> at first, and the loop goes on only while it
  has elements), so the first branch is never taken.
\<close>

definition processElement ::
  "(int \<rightharpoonup> element) \<Rightarrow> (int \<rightharpoonup> element) \<Rightarrow> dstate \<Rightarrow> dstate" where
  "processElement oldNodeMap newNodeMap d =
     (if queue d = [] then d
      else
        (let currentElement = last (queue d);
             d1 = d\<lparr>queue := butlast (queue d)\<rparr>
         in case oldNodeMap (tagID currentElement) of
              Some oldElement \<Rightarrow>
                (let d2 = (if attributeSignature currentElement \<noteq> attributeSignature oldElement
                           then d1\<lparr>edits := generateAttributeEdits (edits d1) oldElement
                                                currentElement\<rparr>
                           else d1);
                     d3 = (if childSignature currentElement \<noteq> childSignature oldElement
                           then generateChildEdits oldNodeMap newNodeMap currentElement
                                  (Some oldElement) d2
                           else d2)
                 in if subtreeSignature currentElement \<noteq> subtreeSignature oldElement
                    then fold (queuePush oldNodeMap) (children currentElement) d3
                    else d3)
            | None \<Rightarrow>
                (let d2 = (if parent currentElement = None
                           then d1\<lparr>edits := edits d1 @
                                  [(newEdit elementInsert)
                                     \<lparr>eTag := Some (tag currentElement),
                                      eTagID := Some (tagID currentElement),
                                      eParentID := Some None,
                                      eAttributes := Some (attributes currentElement)\<rparr>]\<rparr>
                           else d1)
                 in generateChildEdits oldNodeMap newNodeMap currentElement None d2)))"

lemma fold_queuePush_queue:
  "queueSize (queue (fold (queuePush om) ns d)) = queueSize (queue d) + pushWeight om ns"
  by (induction ns arbitrary: d)
     (auto simp: queuePush_def pushWeight_def split: node.splits)

lemma weights_children: "insertWeight om (children e) + pushWeight om (children e) < size e"
proof -
  have "insertWeight om ns + pushWeight om ns \<le> size_list size ns" for ns
    by (induction ns) (auto simp: insertWeight_def pushWeight_def split: node.splits)
  then show ?thesis
    by (cases e) (simp add: le_imp_less_Suc)
qed

lemma processElement_queue:
  assumes "queue d \<noteq> []"
  shows "queueSize (queue (processElement om nm d)) < queueSize (queue d)"
proof -
  define e where "e = last (queue d)"
  define d1 where "d1 = d\<lparr>queue := butlast (queue d)\<rparr>"
  have "queue d = queue d1 @ [e]"
    using assms by (simp add: d1_def e_def)
  then have q: "queueSize (queue d) = queueSize (queue d1) + size e"
    by (simp only: queueSize_append)
  have w: "insertWeight om (children e) + pushWeight om (children e) < size e"
    by (rule weights_children)
  show ?thesis
  proof (cases "om (tagID e)")
    case None
    define d2 where "d2 = (if parent e = None
                           then d1\<lparr>edits := edits d1 @
                                  [(newEdit elementInsert)
                                     \<lparr>eTag := Some (tag e), eTagID := Some (tagID e),
                                      eParentID := Some None,
                                      eAttributes := Some (attributes e)\<rparr>]\<rparr>
                           else d1)"
    have "processElement om nm d = generateChildEdits om nm e None d2"
      using assms None
      by (simp add: processElement_def Let_def e_def [symmetric] d1_def [symmetric] d2_def)
    moreover have "queue d2 = queue d1" by (simp add: d2_def)
    ultimately show ?thesis
      using generateChildEdits_queue [of om nm e None d2] q w by simp
  next
    case (Some oe)
    define d2 where "d2 = (if attributeSignature e \<noteq> attributeSignature oe
                           then d1\<lparr>edits := generateAttributeEdits (edits d1) oe e\<rparr>
                           else d1)"
    define d3 where "d3 = (if childSignature e \<noteq> childSignature oe
                           then generateChildEdits om nm e (Some oe) d2 else d2)"
    have pe: "processElement om nm d =
               (if subtreeSignature e \<noteq> subtreeSignature oe
                then fold (queuePush om) (children e) d3 else d3)"
      using assms Some
      by (simp add: processElement_def Let_def e_def [symmetric] d1_def [symmetric]
            d2_def d3_def)
    have "queue d2 = queue d1" by (simp add: d2_def)
    then have "queueSize (queue d3) \<le> queueSize (queue d1) + insertWeight om (children e)"
      using generateChildEdits_queue [of om nm e "Some oe" d2] by (simp add: d3_def)
    then show ?thesis
      using q w by (simp add: pe fold_queuePush_queue)
  qed
qed

text \<open>\<^verbatim>\<open>do { ... } while (queue.length)\<close>\<close>

function domdiffLoop ::
  "(int \<rightharpoonup> element) \<Rightarrow> (int \<rightharpoonup> element) \<Rightarrow> dstate \<Rightarrow> dstate" where
  "domdiffLoop oldNodeMap newNodeMap d =
     (if queue (processElement oldNodeMap newNodeMap d) \<noteq> []
      then domdiffLoop oldNodeMap newNodeMap (processElement oldNodeMap newNodeMap d)
      else processElement oldNodeMap newNodeMap d)"
  by pat_completeness auto
termination
proof (relation "measure (\<lambda>(om, nm, d). queueSize (queue d))")
  show "wf (measure (\<lambda>(om, nm, d). queueSize (queue d)))" by simp
next
  fix oldNodeMap newNodeMap :: "int \<rightharpoonup> element" and d :: dstate
  assume a: "queue (processElement oldNodeMap newNodeMap d) \<noteq> []"
  have "queue d \<noteq> []"
  proof
    assume "queue d = []"
    then have "processElement oldNodeMap newNodeMap d = d"
      by (simp add: processElement_def)
    with a \<open>queue d = []\<close> show False by simp
  qed
  then show "((oldNodeMap, newNodeMap, processElement oldNodeMap newNodeMap d),
              (oldNodeMap, newNodeMap, d)) \<in> measure (\<lambda>(om, nm, d). queueSize (queue d))"
    using processElement_queue [of d oldNodeMap newNodeMap] by simp
qed

declare domdiffLoop.simps [simp del]

text \<open>
  \<^verbatim>\<open>domdiff\<close>: the state when the loop has ended, and the list returned
  (\<^verbatim>\<open>edits.unshift\<close> puts \<^verbatim>\<open>rememberNodes\<close> first). \<^verbatim>\<open>oldNode\<close> may be \<^verbatim>\<open>null\<close>.
\<close>

definition oldNodeMapOf :: "tree option \<Rightarrow> (int \<rightharpoonup> element)" where
  "oldNodeMapOf oldNode = (case oldNode of None \<Rightarrow> Map.empty | Some t \<Rightarrow> nodeMap t)"

definition domdiffState :: "tree option \<Rightarrow> tree \<Rightarrow> dstate" where
  "domdiffState oldNode newNode =
     domdiffLoop (oldNodeMapOf oldNode) (nodeMap newNode)
       \<lparr>queue = [root newNode], edits = [], moves = [], console = []\<rparr>"

definition domdiff :: "tree option \<Rightarrow> tree \<Rightarrow> edit list" where
  "domdiff oldNode newNode =
     (let d = domdiffState oldNode newNode
      in if moves d \<noteq> []
         then (newEdit rememberNodes)\<lparr>eTagIDs := Some (moves d)\<rparr> # edits d
         else edits d)"


lemma domdiffLoop_last:
  "queue (processElement om nm d) = [] \<Longrightarrow> domdiffLoop om nm d = processElement om nm d"
  by (subst domdiffLoop.simps) simp

lemma domdiffLoop_next:
  "queue (processElement om nm d) \<noteq> [] \<Longrightarrow>
   domdiffLoop om nm d = domdiffLoop om nm (processElement om nm d)"
  by (subst domdiffLoop.simps) simp


section \<open>What an edit can look like\<close>

text \<open>
  The edits one call of \<^verbatim>\<open>generateChildEdits\<close> can push (\<open>rawEdit\<close>), what they can
  become while they are pending (\<open>pendingEdit\<close>), and the edits \<^verbatim>\<open>domdiff\<close> can have in
  its list when the loop has ended (\<open>finalEdit\<close>).
\<close>

inductive rawEdit :: "(int \<rightharpoonup> element) \<Rightarrow> (int \<rightharpoonup> element) \<Rightarrow> element \<Rightarrow> element option \<Rightarrow> edit \<Rightarrow> bool"
  for om nm cp op where
  rawInsert: "om (tagID ce) = None \<Longrightarrow>
     rawEdit om nm cp op ((newEdit elementInsert)
        \<lparr>eTag := Some (tag ce), eTagID := Some (tagID ce),
         eParentID := Some (Some (tagID cp)), eAttributes := Some (attributes ce)\<rparr>)"
| rawDelete: "nm (tagID oe) = None \<Longrightarrow>
     rawEdit om nm cp op ((newEdit elementDelete)\<lparr>eTagID := Some (tagID oe)\<rparr>)"
| rawMove: "om (tagID ce) = Some m \<Longrightarrow> Some (tagID cp) \<noteq> getParentID m \<Longrightarrow>
     rawEdit om nm cp op ((newEdit elementMove)
        \<lparr>eTagID := Some (tagID ce), eParentID := Some (Some (tagID cp))\<rparr>)"
| rawTextInsertAfter: "a \<noteq> 0 \<Longrightarrow>
     rawEdit om nm cp op ((newEdit textInsert)
        \<lparr>eContent := Some c, eParentID := Some (Some (tagID cp)), eAfterID := Some a\<rparr>)"
| rawTextInsertFirst:
    "rawEdit om nm cp op ((newEdit textInsert)
        \<lparr>eContent := Some c, eParentID := Some (Some (tagID cp)), eFirstChild := True\<rparr>)"
| rawTextReplace:
    "a = None \<or> (\<exists>i. a = Some i \<and> i \<noteq> 0) \<Longrightarrow>
     rawEdit om nm cp op ((newEdit textReplace)
        \<lparr>eContent := Some c, eParentID := Some p, eAfterID := a\<rparr>)"
| rawTextDelete:
    "a = None \<or> (\<exists>i. a = Some i \<and> i \<noteq> 0) \<Longrightarrow>
     rawEdit om nm cp op ((newEdit textDelete)\<lparr>eParentID := Some p, eAfterID := a\<rparr>)"

inductive pendingEdit :: "(int \<rightharpoonup> element) \<Rightarrow> (int \<rightharpoonup> element) \<Rightarrow> element \<Rightarrow> element option \<Rightarrow> edit \<Rightarrow> bool"
  for om nm cp op where
  pendingRaw: "rawEdit om nm cp op e \<Longrightarrow> pendingEdit om nm cp op e"
| pendingBeforeText: "pendingEdit om nm cp op e \<Longrightarrow> pendingEdit om nm cp op (beforeTextEdit e)"

inductive finalEdit :: "(int \<rightharpoonup> element) \<Rightarrow> (int \<rightharpoonup> element) \<Rightarrow> edit \<Rightarrow> bool"
  for om nm where
  finalBeforeID: "pendingEdit om nm cp op e \<Longrightarrow> finalEdit om nm (beforeIDEdit b e)"
| finalLastChild: "pendingEdit om nm cp op e \<Longrightarrow> finalEdit om nm (lastChildEdit e)"
| finalRoot: "om (tagID ce) = None \<Longrightarrow>
     finalEdit om nm ((newEdit elementInsert)
        \<lparr>eTag := Some (tag ce), eTagID := Some (tagID ce), eParentID := Some None,
         eAttributes := Some (attributes ce)\<rparr>)"
| finalAttr: "eType e = attrAdd \<or> eType e = attrChange \<or> eType e = attrDelete \<Longrightarrow>
     finalEdit om nm e"

definition editsInv ::
  "(int \<rightharpoonup> element) \<Rightarrow> (int \<rightharpoonup> element) \<Rightarrow> element \<Rightarrow> element option \<Rightarrow> cstate \<Rightarrow> bool" where
  "editsInv om nm cp op s =
     ((\<forall>e\<in>set (edits s). finalEdit om nm e) \<and> (\<forall>e\<in>set (newEdits s). pendingEdit om nm cp op e))"

lemma editsInv_indices [simp]:
  "editsInv om nm cp op (s\<lparr>currentIndex := i\<rparr>) = editsInv om nm cp op s"
  "editsInv om nm cp op (s\<lparr>oldIndex := j\<rparr>) = editsInv om nm cp op s"
  "editsInv om nm cp op (s\<lparr>console := c\<rparr>) = editsInv om nm cp op s"
  by (simp_all add: editsInv_def)

lemma editsInv_addElementMove:
  "editsInv om nm cp op s \<Longrightarrow> editsInv om nm cp op (snd (addElementMove om cp ce s))"
  by (auto simp: editsInv_def addElementMove_def split: option.splits
      intro!: pendingRaw rawMove)

lemma editsInv_addElementInsert:
  "editsInv om nm cp op s \<Longrightarrow> editsInv om nm cp op (snd (addElementInsert om cp ce s))"
  by (auto simp: editsInv_def addElementInsert_def intro!: pendingRaw rawInsert)

lemma editsInv_addElementDelete:
  "editsInv om nm cp op s \<Longrightarrow> editsInv om nm cp op (snd (addElementDelete nm oe s))"
  by (auto simp: editsInv_def addElementDelete_def intro!: pendingRaw rawDelete)

lemma editsInv_addTextInsert:
  "editsInv om nm cp op s \<Longrightarrow> editsInv om nm cp op (addTextInsert cp c s)"
  by (auto simp: editsInv_def addTextInsert_def Let_def truthy_def split: option.splits
      intro!: pendingRaw rawTextInsertAfter rawTextInsertFirst)

lemma rawTextReplace0:
  "rawEdit om nm cp op ((newEdit textReplace)\<lparr>eContent := Some c, eParentID := Some p\<rparr>)"
  using rawTextReplace [where a = None and c = c and p = p, of om nm cp op] by (simp add: newEdit_def)

lemma rawTextDelete0:
  "rawEdit om nm cp op ((newEdit textDelete)\<lparr>eParentID := Some p\<rparr>)"
  using rawTextDelete [where a = None and p = p, of om nm cp op] by (simp add: newEdit_def)

lemma editsInv_addTextDelete:
  "editsInv om nm cp op s \<Longrightarrow> editsInv om nm cp op (addTextDelete cp op s)"
  by (auto simp: editsInv_def addTextDelete_def Let_def truthy_def
      split: option.splits node.splits
      intro!: pendingRaw rawTextReplace rawTextDelete rawTextReplace0 rawTextDelete0)

lemma editsInv_finalizeNewEdits:
  "editsInv om nm cp op s \<Longrightarrow> editsInv om nm cp op (finalizeNewEdits b s)"
  by (auto simp: editsInv_def finalizeNewEdits_def intro: finalBeforeID)

lemma editsInv_fixupElementInsert:
  "editsInv om nm cp op s \<Longrightarrow> editsInv om nm cp op (fixupElementInsert s)"
  by (auto simp: editsInv_def fixupElementInsert_def intro: pendingBeforeText)

lemma editsInv_textReplace:
  "editsInv om nm cp op s \<Longrightarrow> truthy (textAfterID s) \<Longrightarrow>
   editsInv om nm cp op
     (s\<lparr>newEdits := newEdits s @
          [(newEdit textReplace)\<lparr>eContent := Some c, eParentID := Some (Some (tagID cp)),
                                       eAfterID := textAfterID s\<rparr>]\<rparr>)"
  "editsInv om nm cp op s \<Longrightarrow>
   editsInv om nm cp op
     (s\<lparr>newEdits := newEdits s @
          [(newEdit textReplace)\<lparr>eContent := Some c,
                                       eParentID := Some (Some (tagID cp))\<rparr>]\<rparr>)"
  by (auto simp: editsInv_def truthy_def split: option.splits
      intro!: pendingRaw rawTextReplace rawTextReplace0)

lemmas editsInv_prims = editsInv_addElementMove editsInv_addElementInsert
  editsInv_addElementDelete editsInv_addTextInsert editsInv_addTextDelete
  editsInv_finalizeNewEdits editsInv_fixupElementInsert editsInv_textReplace

lemma editsInv_compareStep:
  "editsInv om nm cp op s \<Longrightarrow> editsInv om nm cp op (compareStep om nm cp op s)"
  unfolding compareStep_def Let_def
  by (auto split: node.splits bool.splits simp: split_beta intro!: editsInv_prims)

lemma editsInv_oldDrainStep:
  "editsInv om nm cp op s \<Longrightarrow> editsInv om nm cp op (oldDrainStep nm cp op s)"
  unfolding oldDrainStep_def Let_def
  by (auto split: node.splits bool.splits simp: split_beta intro!: editsInv_prims)

lemma editsInv_newDrainStep:
  "editsInv om nm cp op s \<Longrightarrow> editsInv om nm cp op (newDrainStep om cp s)"
  unfolding newDrainStep_def Let_def
  by (auto split: node.splits bool.splits simp: split_beta intro!: editsInv_prims)


lemma editsInv_compareLoop:
  "editsInv om nm cp op s \<Longrightarrow> editsInv om nm cp op (compareLoop om nm cp op s)"
proof (induction om nm cp op s rule: compareLoop.induct)
  case (1 om nm cp op s)
  show ?case
  proof (cases "currentIndex s < length (children cp) \<and> oldIndex s < length (oldChildrenOf op)")
    case True
    then have "compareLoop om nm cp op s = compareLoop om nm cp op (compareStep om nm cp op s)"
      by (simp add: compareLoop_step)
    with 1 True show ?thesis by (simp add: editsInv_compareStep)
  next
    case False
    then have "compareLoop om nm cp op s = s" by (rule compareLoop_stop)
    with 1 show ?thesis by simp
  qed
qed

lemma editsInv_oldDrainLoop:
  "editsInv om nm cp op s \<Longrightarrow> editsInv om nm cp op (oldDrainLoop nm cp op s)"
proof (induction nm cp op s rule: oldDrainLoop.induct)
  case (1 nm cp op s)
  show ?case
  proof (cases "oldIndex s < length (oldChildrenOf op)")
    case True
    then have "oldDrainLoop nm cp op s = oldDrainLoop nm cp op (oldDrainStep nm cp op s)"
      by (rule oldDrainLoop_step)
    with 1 True show ?thesis by (simp add: editsInv_oldDrainStep)
  next
    case False
    then have "oldDrainLoop nm cp op s = s" by (rule oldDrainLoop_stop)
    with 1 show ?thesis by simp
  qed
qed

lemma editsInv_newDrainLoop:
  "editsInv om nm cp op s \<Longrightarrow> editsInv om nm cp op (newDrainLoop om cp s)"
proof (induction om cp s rule: newDrainLoop.induct)
  case (1 om cp s)
  show ?case
  proof (cases "currentIndex s < length (children cp)")
    case True
    then have "newDrainLoop om cp s = newDrainLoop om cp (newDrainStep om cp s)"
      by (rule newDrainLoop_step)
    with 1 True show ?thesis by (simp add: editsInv_newDrainStep)
  next
    case False
    then have "newDrainLoop om cp s = s" by (rule newDrainLoop_stop)
    with 1 show ?thesis by simp
  qed
qed

definition finalInv :: "(int \<rightharpoonup> element) \<Rightarrow> (int \<rightharpoonup> element) \<Rightarrow> edit list \<Rightarrow> bool" where
  "finalInv om nm es = (\<forall>e\<in>set es. finalEdit om nm e)"

lemma finalInv_generateChildEdits:
  assumes "finalInv om nm (edits d)"
  shows "finalInv om nm (edits (generateChildEdits om nm cp op d))"
proof -
  define s0 :: cstate where "s0 = \<lparr>queue = queue d, edits = edits d, moves = moves d,
     console = console d, currentIndex = 0, oldIndex = 0, newEdits = [], textAfterID = None\<rparr>"
  define s3 where
    "s3 = newDrainLoop om cp (oldDrainLoop nm cp op (compareLoop om nm cp op s0))"
  have "editsInv om nm cp op s0"
    using assms by (simp add: editsInv_def finalInv_def s0_def)
  then have "editsInv om nm cp op s3"
    unfolding s3_def
    by (intro editsInv_newDrainLoop editsInv_oldDrainLoop editsInv_compareLoop)
  then have "finalInv om nm (edits s3 @ map lastChildEdit (newEdits s3))"
    by (auto simp: editsInv_def finalInv_def intro: finalLastChild)
  then show ?thesis
    by (simp add: generateChildEdits_def Let_def s0_def s3_def)
qed

lemma newAttributesLoop_types:
  "\<forall>e\<in>set es. P e \<or> eType e = attrAdd \<or> eType e = attrChange \<Longrightarrow>
   \<forall>e\<in>set (snd (newAttributesLoop tid new names old es)).
      P e \<or> eType e = attrAdd \<or> eType e = attrChange"
proof (induction names arbitrary: old es)
  case Nil
  then show ?case by simp
next
  case (Cons k names)
  let ?es = "if map_of old k \<noteq> map_of new k
             then es @ [(newEdit (if k \<in> set (map fst old) then attrChange else attrAdd))
                          \<lparr>eTagID := Some tid, eAttribute := Some k,
                           eValue := map_of new k\<rparr>]
             else es"
  have "\<forall>e\<in>set ?es. P e \<or> eType e = attrAdd \<or> eType e = attrChange"
    using Cons.prems by (auto simp: newEdit_def)
  from Cons.IH [OF this, of "deleteAttribute k old"] show ?case
    by simp
qed

lemma generateAttributeEdits_types:
  assumes "e \<in> set (generateAttributeEdits es oe ce)"
  shows "e \<in> set es \<or> eType e = attrAdd \<or> eType e = attrChange \<or> eType e = attrDelete"
proof -
  have "\<forall>e\<in>set es. e \<in> set es \<or> eType e = attrAdd \<or> eType e = attrChange"
    by simp
  from newAttributesLoop_types [where P = "\<lambda>e. e \<in> set es", OF this]
  show ?thesis
    using assms
    by (fastforce simp: generateAttributeEdits_def split_beta Let_def newEdit_def)
qed

lemma finalInv_generateAttributeEdits:
  "finalInv om nm es \<Longrightarrow> finalInv om nm (generateAttributeEdits es oe ce)"
  unfolding finalInv_def
  by (blast dest: generateAttributeEdits_types intro: finalAttr)

lemma fold_queuePush_edits [simp]: "edits (fold (queuePush om) ns d) = edits d"
  by (induction ns arbitrary: d) (auto simp: queuePush_def split: node.splits)

lemma fold_queuePush_moves [simp]: "moves (fold (queuePush om) ns d) = moves d"
  by (induction ns arbitrary: d) (auto simp: queuePush_def split: node.splits)

lemma finalInv_processElement:
  assumes "finalInv om nm (edits d)"
  shows "finalInv om nm (edits (processElement om nm d))"
proof (cases "queue d = []")
  case True
  with assms show ?thesis by (simp add: processElement_def)
next
  case False
  define e where "e = last (queue d)"
  define d1 where "d1 = d\<lparr>queue := butlast (queue d)\<rparr>"
  have d1: "finalInv om nm (edits d1)" using assms by (simp add: d1_def)
  show ?thesis
  proof (cases "om (tagID e)")
    case None
    define d2 where "d2 = (if parent e = None
                           then d1\<lparr>edits := edits d1 @
                                  [(newEdit elementInsert)
                                     \<lparr>eTag := Some (tag e), eTagID := Some (tagID e),
                                      eParentID := Some None,
                                      eAttributes := Some (attributes e)\<rparr>]\<rparr>
                           else d1)"
    have "processElement om nm d = generateChildEdits om nm e None d2"
      using False None
      by (simp add: processElement_def Let_def e_def [symmetric] d1_def [symmetric] d2_def)
    moreover have "finalInv om nm (edits d2)"
      using d1 None by (auto simp: d2_def finalInv_def intro: finalRoot)
    ultimately show ?thesis
      by (simp add: finalInv_generateChildEdits)
  next
    case (Some oe)
    define d2 where "d2 = (if attributeSignature e \<noteq> attributeSignature oe
                           then d1\<lparr>edits := generateAttributeEdits (edits d1) oe e\<rparr>
                           else d1)"
    define d3 where "d3 = (if childSignature e \<noteq> childSignature oe
                           then generateChildEdits om nm e (Some oe) d2 else d2)"
    have pe: "processElement om nm d =
               (if subtreeSignature e \<noteq> subtreeSignature oe
                then fold (queuePush om) (children e) d3 else d3)"
      using False Some
      by (simp add: processElement_def Let_def e_def [symmetric] d1_def [symmetric]
            d2_def d3_def)
    have "finalInv om nm (edits d2)"
      using d1 by (simp add: d2_def finalInv_generateAttributeEdits)
    then have "finalInv om nm (edits d3)"
      by (simp add: d3_def finalInv_generateChildEdits)
    then show ?thesis
      by (simp add: pe)
  qed
qed

lemma finalInv_domdiffLoop:
  "finalInv om nm (edits d) \<Longrightarrow> finalInv om nm (edits (domdiffLoop om nm d))"
proof (induction om nm d rule: domdiffLoop.induct)
  case (1 om nm d)
  have p: "finalInv om nm (edits (processElement om nm d))"
    using "1.prems" by (rule finalInv_processElement)
  show ?case
  proof (cases "queue (processElement om nm d) = []")
    case True
    then have "domdiffLoop om nm d = processElement om nm d" by (rule domdiffLoop_last)
    with p show ?thesis by simp
  next
    case False
    then have "domdiffLoop om nm d = domdiffLoop om nm (processElement om nm d)"
      by (rule domdiffLoop_next)
    with "1.IH" [OF False p] show ?thesis by simp
  qed
qed

lemma finalInv_domdiffState:
  "finalInv (oldNodeMapOf oldNode) (nodeMap newNode) (edits (domdiffState oldNode newNode))"
  unfolding domdiffState_def
  by (rule finalInv_domdiffLoop) (simp add: finalInv_def)

lemma beforeTextEdit_fields [simp]:
  "eType (beforeTextEdit e) = eType e" "eTagID (beforeTextEdit e) = eTagID e"
  "eContent (beforeTextEdit e) = eContent e" "eParentID (beforeTextEdit e) = eParentID e"
  "eAfterID (beforeTextEdit e) = eAfterID e" "eBeforeID (beforeTextEdit e) = eBeforeID e"
  "eFirstChild (beforeTextEdit e) = eFirstChild e" "eLastChild (beforeTextEdit e) = eLastChild e"
  "eTagIDs (beforeTextEdit e) = eTagIDs e"
  by (simp_all add: beforeTextEdit_def)

lemma beforeIDEdit_fields [simp]:
  "eType (beforeIDEdit b e) = eType e" "eTagID (beforeIDEdit b e) = eTagID e"
  "eContent (beforeIDEdit b e) = eContent e" "eParentID (beforeIDEdit b e) = eParentID e"
  "eAfterID (beforeIDEdit b e) = eAfterID e"
  "eBeforeID (beforeIDEdit b e) = (if eType e \<noteq> elementDelete then Some b else eBeforeID e)"
  "eFirstChild (beforeIDEdit b e) = eFirstChild e" "eLastChild (beforeIDEdit b e) = eLastChild e"
  "eTagIDs (beforeIDEdit b e) = eTagIDs e"
  by (simp_all add: beforeIDEdit_def)

lemma lastChildEdit_fields [simp]:
  "eType (lastChildEdit e) = eType e" "eTagID (lastChildEdit e) = eTagID e"
  "eContent (lastChildEdit e) = eContent e" "eParentID (lastChildEdit e) = eParentID e"
  "eBeforeID (lastChildEdit e) = eBeforeID e" "eTagIDs (lastChildEdit e) = eTagIDs e"
  by (simp_all add: lastChildEdit_def)

lemma pending_textInsert:
  assumes "pendingEdit om nm cp op e" and "eType e = textInsert"
  shows "eContent e \<noteq> None \<and> eParentID e \<noteq> None \<and> ((eAfterID e \<noteq> None) \<noteq> eFirstChild e)
         \<and> \<not> eLastChild e \<and> eBeforeID e = None"
  using assms
proof (induction rule: pendingEdit.induct)
  case (pendingRaw e)
  then show ?case by (cases rule: rawEdit.cases) (simp_all add: newEdit_def)
next
  case (pendingBeforeText e)
  then show ?case by simp
qed

lemma final_textInsert:
  assumes "finalEdit om nm e" and "eType e = textInsert"
  shows "eContent e \<noteq> None \<and> eParentID e \<noteq> None \<and>
         (if eLastChild e then eAfterID e = None \<and> \<not> eFirstChild e \<and> eBeforeID e = None
          else ((eAfterID e \<noteq> None) \<noteq> eFirstChild e) \<and> eBeforeID e \<noteq> None)"
  using assms
proof (cases rule: finalEdit.cases)
  case (finalBeforeID cp op e' b)
  with assms(2) have t: "eType e' = textInsert" by simp
  with finalBeforeID pending_textInsert [of om nm cp op e'] show ?thesis by simp
next
  case (finalLastChild cp op e')
  with assms(2) have t: "eType e' = textInsert" by simp
  with finalLastChild pending_textInsert [of om nm cp op e'] show ?thesis
    by (simp add: lastChildEdit_def)
next
  case (finalRoot ce)
  with assms(2) show ?thesis by (simp add: newEdit_def)
next
  case finalAttr
  with assms(2) show ?thesis by auto
qed

lemma domdiff_edits:
  "e \<in> set (domdiff oldNode newNode) \<Longrightarrow>
   e \<in> set (edits (domdiffState oldNode newNode)) \<or>
   e = (newEdit rememberNodes)\<lparr>eTagIDs := Some (moves (domdiffState oldNode newNode))\<rparr>"
  by (auto simp: domdiff_def Let_def split: if_splits)

section \<open>The moved identities\<close>

text \<open>The identities of the \<^verbatim>\<open>elementMove\<close> edits of a list, in order.\<close>

definition moveIDs :: "edit list \<Rightarrow> int option list" where
  "moveIDs es = map eTagID (filter (\<lambda>e. eType e = elementMove) es)"

lemma moveIDs_simps [simp]:
  "moveIDs [] = []"
  "moveIDs (xs @ ys) = moveIDs xs @ moveIDs ys"
  "moveIDs (e # es) = (if eType e = elementMove then eTagID e # moveIDs es else moveIDs es)"
  by (simp_all add: moveIDs_def)

lemma moveIDs_map [simp]:
  "moveIDs (map (beforeIDEdit b) es) = moveIDs es"
  "moveIDs (map beforeTextEdit es) = moveIDs es"
  "moveIDs (map lastChildEdit es) = moveIDs es"
  by (induction es) simp_all

definition movesInv :: "cstate \<Rightarrow> bool" where
  "movesInv s = (map Some (moves s) = moveIDs (edits s) @ moveIDs (newEdits s))"

lemma movesInv_indices [simp]:
  "movesInv (s\<lparr>currentIndex := i\<rparr>) = movesInv s"
  "movesInv (s\<lparr>oldIndex := j\<rparr>) = movesInv s"
  "movesInv (s\<lparr>console := c\<rparr>) = movesInv s"
  by (simp_all add: movesInv_def)

lemma movesInv_addElementMove:
  "movesInv s \<Longrightarrow> movesInv (snd (addElementMove om cp ce s))"
  by (auto simp: movesInv_def addElementMove_def newEdit_def split: option.splits)

lemma movesInv_addElementInsert:
  "movesInv s \<Longrightarrow> movesInv (snd (addElementInsert om cp ce s))"
  by (auto simp: movesInv_def addElementInsert_def newEdit_def)

lemma movesInv_addElementDelete:
  "movesInv s \<Longrightarrow> movesInv (snd (addElementDelete nm oe s))"
  by (auto simp: movesInv_def addElementDelete_def newEdit_def)

lemma movesInv_addTextInsert:
  "movesInv s \<Longrightarrow> movesInv (addTextInsert cp c s)"
  by (auto simp: movesInv_def addTextInsert_def Let_def newEdit_def)

lemma movesInv_addTextDelete:
  "movesInv s \<Longrightarrow> movesInv (addTextDelete cp op s)"
  by (auto simp: movesInv_def addTextDelete_def Let_def newEdit_def
      split: option.splits node.splits)

lemma movesInv_finalizeNewEdits:
  "movesInv s \<Longrightarrow> movesInv (finalizeNewEdits b s)"
  by (auto simp: movesInv_def finalizeNewEdits_def)

lemma movesInv_fixupElementInsert:
  "movesInv s \<Longrightarrow> movesInv (fixupElementInsert s)"
  by (auto simp: movesInv_def fixupElementInsert_def)

lemma movesInv_textReplace:
  "movesInv s \<Longrightarrow> eType e = textReplace \<Longrightarrow> movesInv (s\<lparr>newEdits := newEdits s @ [e]\<rparr>)"
  by (auto simp: movesInv_def)

lemmas movesInv_prims = movesInv_addElementMove movesInv_addElementInsert
  movesInv_addElementDelete movesInv_addTextInsert movesInv_addTextDelete
  movesInv_finalizeNewEdits movesInv_fixupElementInsert movesInv_textReplace

lemma movesInv_compareStep:
  "movesInv s \<Longrightarrow> movesInv (compareStep om nm cp op s)"
  unfolding compareStep_def Let_def
  by (auto split: node.splits bool.splits simp: split_beta newEdit_def intro!: movesInv_prims)

lemma movesInv_oldDrainStep:
  "movesInv s \<Longrightarrow> movesInv (oldDrainStep nm cp op s)"
  unfolding oldDrainStep_def Let_def
  by (auto split: node.splits bool.splits simp: split_beta intro!: movesInv_prims)

lemma movesInv_newDrainStep:
  "movesInv s \<Longrightarrow> movesInv (newDrainStep om cp s)"
  unfolding newDrainStep_def Let_def
  by (auto split: node.splits bool.splits simp: split_beta intro!: movesInv_prims)

text \<open>A property that every pass keeps holds when the loops have ended.\<close>

lemma compareLoop_invariant:
  assumes "\<And>s. I s \<Longrightarrow> currentIndex s < length (children cp) \<Longrightarrow>
             oldIndex s < length (oldChildrenOf op) \<Longrightarrow> I (compareStep om nm cp op s)"
      and "I s"
  shows "I (compareLoop om nm cp op s)"
  using assms
proof (induction om nm cp op s rule: compareLoop.induct)
  case (1 om nm cp op s)
  show ?case
  proof (cases "currentIndex s < length (children cp) \<and> oldIndex s < length (oldChildrenOf op)")
    case True
    then have "compareLoop om nm cp op s = compareLoop om nm cp op (compareStep om nm cp op s)"
      by (simp add: compareLoop_step)
    moreover have "I (compareStep om nm cp op s)"
      using "1.prems" True by blast
    ultimately show ?thesis
      using "1.IH" [OF True "1.prems"(1)] by simp
  next
    case False
    then have "compareLoop om nm cp op s = s" by (rule compareLoop_stop)
    with 1 show ?thesis by simp
  qed
qed

lemma oldDrainLoop_invariant:
  assumes "\<And>s. I s \<Longrightarrow> oldIndex s < length (oldChildrenOf op) \<Longrightarrow>
             I (oldDrainStep nm cp op s)"
      and "I s"
  shows "I (oldDrainLoop nm cp op s)"
  using assms
proof (induction nm cp op s rule: oldDrainLoop.induct)
  case (1 nm cp op s)
  show ?case
  proof (cases "oldIndex s < length (oldChildrenOf op)")
    case True
    then have "oldDrainLoop nm cp op s = oldDrainLoop nm cp op (oldDrainStep nm cp op s)"
      by (rule oldDrainLoop_step)
    moreover have "I (oldDrainStep nm cp op s)"
      using "1.prems" True by blast
    ultimately show ?thesis
      using "1.IH" [OF True "1.prems"(1)] by simp
  next
    case False
    then have "oldDrainLoop nm cp op s = s" by (rule oldDrainLoop_stop)
    with 1 show ?thesis by simp
  qed
qed

lemma newDrainLoop_invariant:
  assumes "\<And>s. I s \<Longrightarrow> currentIndex s < length (children cp) \<Longrightarrow>
             I (newDrainStep om cp s)"
      and "I s"
  shows "I (newDrainLoop om cp s)"
  using assms
proof (induction om cp s rule: newDrainLoop.induct)
  case (1 om cp s)
  show ?case
  proof (cases "currentIndex s < length (children cp)")
    case True
    then have "newDrainLoop om cp s = newDrainLoop om cp (newDrainStep om cp s)"
      by (rule newDrainLoop_step)
    moreover have "I (newDrainStep om cp s)"
      using "1.prems" True by blast
    ultimately show ?thesis
      using "1.IH" [OF True "1.prems"(1)] by simp
  next
    case False
    then have "newDrainLoop om cp s = s" by (rule newDrainLoop_stop)
    with 1 show ?thesis by simp
  qed
qed

text \<open>The state in which \<^verbatim>\<open>generateChildEdits\<close> starts its loops, and the one they end in.\<close>

definition childState :: "dstate \<Rightarrow> cstate" where
  "childState d = \<lparr>queue = queue d, edits = edits d, moves = moves d, console = console d,
     currentIndex = 0, oldIndex = 0, newEdits = [], textAfterID = None\<rparr>"

definition childLoops ::
  "(int \<rightharpoonup> element) \<Rightarrow> (int \<rightharpoonup> element) \<Rightarrow> element \<Rightarrow> element option \<Rightarrow> dstate \<Rightarrow> cstate"
  where
  "childLoops om nm cp op d =
     newDrainLoop om cp (oldDrainLoop nm cp op (compareLoop om nm cp op (childState d)))"

lemma generateChildEdits_childLoops:
  "generateChildEdits om nm cp op d =
     \<lparr>queue = queue (childLoops om nm cp op d),
      edits = edits (childLoops om nm cp op d)
                @ map lastChildEdit (newEdits (childLoops om nm cp op d)),
      moves = moves (childLoops om nm cp op d),
      console = console (childLoops om nm cp op d)\<rparr>"
  by (simp add: generateChildEdits_def childLoops_def childState_def Let_def)

lemma childLoops_invariant:
  assumes "\<And>s. I s \<Longrightarrow> currentIndex s < length (children cp) \<Longrightarrow>
             oldIndex s < length (oldChildrenOf op) \<Longrightarrow> I (compareStep om nm cp op s)"
      and "\<And>s. I s \<Longrightarrow> oldIndex s < length (oldChildrenOf op) \<Longrightarrow>
             I (oldDrainStep nm cp op s)"
      and "\<And>s. I s \<Longrightarrow> currentIndex s < length (children cp) \<Longrightarrow>
             I (newDrainStep om cp s)"
      and "I (childState d)"
  shows "I (childLoops om nm cp op d)"
  unfolding childLoops_def
  by (intro newDrainLoop_invariant [where I = I] oldDrainLoop_invariant [where I = I]
        compareLoop_invariant [where I = I] assms)

lemma movesInv_childLoops:
  assumes "map Some (moves d) = moveIDs (edits d)"
  shows "movesInv (childLoops om nm cp op d)"
proof (rule childLoops_invariant [where I = movesInv])
  show "movesInv (childState d)"
    using assms by (simp add: movesInv_def childState_def)
qed (erule movesInv_compareStep movesInv_oldDrainStep movesInv_newDrainStep)+

lemma moves_generateChildEdits:
  assumes "map Some (moves d) = moveIDs (edits d)"
  shows "map Some (moves (generateChildEdits om nm cp op d))
         = moveIDs (edits (generateChildEdits om nm cp op d))"
  using movesInv_childLoops [OF assms, of om nm cp op]
  by (simp add: generateChildEdits_childLoops movesInv_def)

lemma newAttributesLoop_append:
  "\<exists>xs. snd (newAttributesLoop tid new names old es) = es @ xs \<and>
        (\<forall>e\<in>set xs. eType e = attrAdd \<or> eType e = attrChange)"
proof (induction names arbitrary: old es)
  case Nil
  then show ?case by simp
next
  case (Cons k names)
  let ?x = "(newEdit (if k \<in> set (map fst old) then attrChange else attrAdd))
              \<lparr>eTagID := Some tid, eAttribute := Some k, eValue := map_of new k\<rparr>"
  let ?es = "if map_of old k \<noteq> map_of new k then es @ [?x] else es"
  from Cons.IH [of "deleteAttribute k old" ?es]
  obtain xs where xs: "snd (newAttributesLoop tid new names (deleteAttribute k old) ?es) = ?es @ xs"
      "\<forall>e\<in>set xs. eType e = attrAdd \<or> eType e = attrChange"
    by blast
  show ?case
  proof (cases "map_of old k \<noteq> map_of new k")
    case True
    with xs have "snd (newAttributesLoop tid new (k # names) old es) = es @ (?x # xs)"
      by simp
    moreover have "\<forall>e\<in>set (?x # xs). eType e = attrAdd \<or> eType e = attrChange"
      using xs(2) by (simp add: newEdit_def)
    ultimately show ?thesis by blast
  next
    case False
    with xs show ?thesis by auto
  qed
qed

lemma generateAttributeEdits_append:
  "\<exists>xs. generateAttributeEdits es oe ce = es @ xs \<and>
        (\<forall>e\<in>set xs. eType e = attrAdd \<or> eType e = attrChange \<or> eType e = attrDelete)"
proof -
  obtain xs where xs:
    "snd (newAttributesLoop (tagID oe) (attributes ce) (map fst (attributes ce))
            (attributes oe) es) = es @ xs"
    "\<forall>e\<in>set xs. eType e = attrAdd \<or> eType e = attrChange"
    using newAttributesLoop_append by blast
  let ?ds = "map (\<lambda>attributeName. (newEdit attrDelete)\<lparr>eTagID := Some (tagID oe),
                                            eAttribute := Some attributeName\<rparr>)
               (map fst (fst (newAttributesLoop (tagID oe) (attributes ce)
                  (map fst (attributes ce)) (attributes oe) es)))"
  have "generateAttributeEdits es oe ce = es @ (xs @ ?ds)"
    by (simp add: generateAttributeEdits_def split_beta xs(1))
  moreover have "\<forall>e\<in>set (xs @ ?ds).
      eType e = attrAdd \<or> eType e = attrChange \<or> eType e = attrDelete"
    using xs(2) by (auto simp: newEdit_def)
  ultimately show ?thesis by blast
qed

lemma moveIDs_generateAttributeEdits [simp]:
  "moveIDs (generateAttributeEdits es oe ce) = moveIDs es"
proof -
  obtain xs where xs: "generateAttributeEdits es oe ce = es @ xs"
      "\<forall>e\<in>set xs. eType e = attrAdd \<or> eType e = attrChange \<or> eType e = attrDelete"
    using generateAttributeEdits_append by blast
  have "moveIDs xs = []"
    using xs(2) by (induction xs) auto
  with xs(1) show ?thesis by simp
qed

lemma moves_processElement:
  assumes "map Some (moves d) = moveIDs (edits d)"
  shows "map Some (moves (processElement om nm d)) = moveIDs (edits (processElement om nm d))"
proof (cases "queue d = []")
  case True
  with assms show ?thesis by (simp add: processElement_def)
next
  case False
  define e where "e = last (queue d)"
  define d1 where "d1 = d\<lparr>queue := butlast (queue d)\<rparr>"
  have d1: "map Some (moves d1) = moveIDs (edits d1)" using assms by (simp add: d1_def)
  show ?thesis
  proof (cases "om (tagID e)")
    case None
    define d2 where "d2 = (if parent e = None
                           then d1\<lparr>edits := edits d1 @
                                  [(newEdit elementInsert)
                                     \<lparr>eTag := Some (tag e), eTagID := Some (tagID e),
                                      eParentID := Some None,
                                      eAttributes := Some (attributes e)\<rparr>]\<rparr>
                           else d1)"
    have "processElement om nm d = generateChildEdits om nm e None d2"
      using False None
      by (simp add: processElement_def Let_def e_def [symmetric] d1_def [symmetric] d2_def)
    moreover have "map Some (moves d2) = moveIDs (edits d2)"
      using d1 by (simp add: d2_def newEdit_def)
    ultimately show ?thesis
      by (simp add: moves_generateChildEdits)
  next
    case (Some oe)
    define d2 where "d2 = (if attributeSignature e \<noteq> attributeSignature oe
                           then d1\<lparr>edits := generateAttributeEdits (edits d1) oe e\<rparr>
                           else d1)"
    define d3 where "d3 = (if childSignature e \<noteq> childSignature oe
                           then generateChildEdits om nm e (Some oe) d2 else d2)"
    have pe: "processElement om nm d =
               (if subtreeSignature e \<noteq> subtreeSignature oe
                then fold (queuePush om) (children e) d3 else d3)"
      using False Some
      by (simp add: processElement_def Let_def e_def [symmetric] d1_def [symmetric]
            d2_def d3_def)
    have "map Some (moves d2) = moveIDs (edits d2)"
      using d1 by (simp add: d2_def)
    then have "map Some (moves d3) = moveIDs (edits d3)"
      by (simp add: d3_def moves_generateChildEdits)
    then show ?thesis
      by (simp add: pe)
  qed
qed

lemma moves_domdiffLoop:
  "map Some (moves d) = moveIDs (edits d) \<Longrightarrow>
   map Some (moves (domdiffLoop om nm d)) = moveIDs (edits (domdiffLoop om nm d))"
proof (induction om nm d rule: domdiffLoop.induct)
  case (1 om nm d)
  have p: "map Some (moves (processElement om nm d)) = moveIDs (edits (processElement om nm d))"
    using "1.prems" by (rule moves_processElement)
  show ?case
  proof (cases "queue (processElement om nm d) = []")
    case True
    then have "domdiffLoop om nm d = processElement om nm d" by (rule domdiffLoop_last)
    with p show ?thesis by simp
  next
    case False
    then have "domdiffLoop om nm d = domdiffLoop om nm (processElement om nm d)"
      by (rule domdiffLoop_next)
    with "1.IH" [OF False p] show ?thesis by simp
  qed
qed

lemma moves_domdiffState:
  "map Some (moves (domdiffState oldNode newNode)) = moveIDs (edits (domdiffState oldNode newNode))"
  unfolding domdiffState_def
  by (rule moves_domdiffLoop) simp

lemma pending_not_rememberNodes:
  "pendingEdit om nm cp op e \<Longrightarrow> eType e \<noteq> rememberNodes"
proof (induction rule: pendingEdit.induct)
  case (pendingRaw e)
  then show ?case by (cases rule: rawEdit.cases) (simp_all add: newEdit_def)
next
  case (pendingBeforeText e)
  then show ?case by simp
qed

lemma final_not_rememberNodes:
  "finalEdit om nm e \<Longrightarrow> eType e \<noteq> rememberNodes"
  by (cases rule: finalEdit.cases)
     (auto simp: newEdit_def dest: pending_not_rememberNodes)

text \<open>The shape of the list \<^verbatim>\<open>domdiff\<close> returns.\<close>

lemma domdiff_shape:
  "(moveIDs (edits (domdiffState oldNode newNode)) = [] \<and>
      domdiff oldNode newNode = edits (domdiffState oldNode newNode)) \<or>
   (moveIDs (edits (domdiffState oldNode newNode)) \<noteq> [] \<and>
      domdiff oldNode newNode =
        (newEdit rememberNodes)\<lparr>eTagIDs := Some (moves (domdiffState oldNode newNode))\<rparr>
          # edits (domdiffState oldNode newNode))"
  using moves_domdiffState [of oldNode newNode]
  by (cases "moves (domdiffState oldNode newNode) = []") (auto simp: domdiff_def Let_def)

lemma domdiffState_no_rememberNodes:
  "e \<in> set (edits (domdiffState oldNode newNode)) \<Longrightarrow> eType e \<noteq> rememberNodes"
  using finalInv_domdiffState [of oldNode newNode]
  by (auto simp: finalInv_def dest: final_not_rememberNodes)

lemma moveIDs_empty_iff: "moveIDs es = [] \<longleftrightarrow> (\<forall>e\<in>set es. eType e \<noteq> elementMove)"
  by (induction es) auto

section \<open>What each helper changes\<close>

text \<open>The edit \<^verbatim>\<open>addTextDelete\<close> pushes when it pushes one.\<close>

definition textDeleteEdit :: "element \<Rightarrow> element option \<Rightarrow> cstate \<Rightarrow> edit" where
  "textDeleteEdit cp op s =
     (let e = (case prevNode cp s of
                 Some (Text prevContent _) \<Rightarrow>
                   (newEdit textReplace)\<lparr>eContent := Some prevContent\<rparr>
               | _ \<Rightarrow> newEdit textDelete);
          e1 = e\<lparr>eParentID := Some (map_option tagID op)\<rparr>
      in if length (oldChildrenOf op) = 1 then e1
         else if truthy (textAfterID s) then e1\<lparr>eAfterID := textAfterID s\<rparr>
         else e1)"

text \<open>Whether \<^verbatim>\<open>addTextDelete\<close> finds a pending \<^verbatim>\<open>textReplace\<close> after the same element.\<close>

definition textMerged :: "cstate \<Rightarrow> bool" where
  "textMerged s =
     (newEdits s \<noteq> [] \<and> eType (last (newEdits s)) = textReplace
        \<and> eAfterID (last (newEdits s)) = textAfterID s)"

lemma addTextDelete_eq:
  "addTextDelete cp op s =
     (if textMerged s then s\<lparr>oldIndex := oldIndex s + 1\<rparr>
      else s\<lparr>newEdits := newEdits s @ [textDeleteEdit cp op s], oldIndex := oldIndex s + 1\<rparr>)"
  by (simp add: addTextDelete_def textDeleteEdit_def textMerged_def Let_def)

lemma textDeleteEdit_fields:
  "eType (textDeleteEdit cp op s) = textDelete \<or> eType (textDeleteEdit cp op s) = textReplace"
  "eParentID (textDeleteEdit cp op s) = Some (map_option tagID op)"
  "eAfterID (textDeleteEdit cp op s) =
     (if length (oldChildrenOf op) \<noteq> 1 \<and> truthy (textAfterID s) then textAfterID s else None)"
  "eBeforeID (textDeleteEdit cp op s) = None"
  "\<not> eFirstChild (textDeleteEdit cp op s)"
  "\<not> eLastChild (textDeleteEdit cp op s)"
  "\<not> eBeforeText (textDeleteEdit cp op s)"
  "eTagID (textDeleteEdit cp op s) = None"
  by (simp_all add: textDeleteEdit_def Let_def newEdit_def split: option.splits node.splits)

text \<open>What each helper leaves alone, and what it appends.\<close>

lemma addElementMove_fst:
  "fst (addElementMove om cp ce s) =
     (\<exists>m. om (tagID ce) = Some m \<and> Some (tagID cp) \<noteq> getParentID m)"
  by (auto simp: addElementMove_def split: option.splits)

lemma addElementMove_frame [simp]:
  "edits (snd (addElementMove om cp ce s)) = edits s"
  "textAfterID (snd (addElementMove om cp ce s)) = textAfterID s"
  "console (snd (addElementMove om cp ce s)) = console s"
  "moves (snd (addElementMove om cp ce s)) =
     (if fst (addElementMove om cp ce s) then moves s @ [tagID ce] else moves s)"
  "newEdits (snd (addElementMove om cp ce s)) =
     (if fst (addElementMove om cp ce s)
      then newEdits s @ [(newEdit elementMove)
                           \<lparr>eTagID := Some (tagID ce),
                            eParentID := Some (Some (tagID cp))\<rparr>]
      else newEdits s)"
  by (auto simp: addElementMove_def split: option.splits)

lemma addElementInsert_frame [simp]:
  "edits (snd (addElementInsert om cp ce s)) = edits s"
  "textAfterID (snd (addElementInsert om cp ce s)) =
     (if fst (addElementInsert om cp ce s) then Some (tagID ce) else textAfterID s)"
  "console (snd (addElementInsert om cp ce s)) = console s"
  "moves (snd (addElementInsert om cp ce s)) = moves s"
  "newEdits (snd (addElementInsert om cp ce s)) =
     (if fst (addElementInsert om cp ce s)
      then newEdits s @ [(newEdit elementInsert)
                           \<lparr>eTag := Some (tag ce), eTagID := Some (tagID ce),
                            eParentID := Some (Some (tagID cp)),
                            eAttributes := Some (attributes ce)\<rparr>]
      else newEdits s)"
  by (auto simp: addElementInsert_def)

lemma addElementDelete_fst: "fst (addElementDelete nm oe s) = (nm (tagID oe) = None)"
  by (auto simp: addElementDelete_def)

lemma addElementDelete_frame [simp]:
  "edits (snd (addElementDelete nm oe s)) = edits s"
  "textAfterID (snd (addElementDelete nm oe s)) = textAfterID s"
  "console (snd (addElementDelete nm oe s)) = console s"
  "moves (snd (addElementDelete nm oe s)) = moves s"
  "newEdits (snd (addElementDelete nm oe s)) =
     (if fst (addElementDelete nm oe s)
      then newEdits s @ [(newEdit elementDelete)\<lparr>eTagID := Some (tagID oe)\<rparr>]
      else newEdits s)"
  by (auto simp: addElementDelete_def)

lemma addTextInsert_frame [simp]:
  "edits (addTextInsert cp c s) = edits s"
  "textAfterID (addTextInsert cp c s) = textAfterID s"
  "console (addTextInsert cp c s) = console s"
  "moves (addTextInsert cp c s) = moves s"
  "newEdits (addTextInsert cp c s) =
     newEdits s @
       [if truthy (textAfterID s)
        then (newEdit textInsert)\<lparr>eContent := Some c, eParentID := Some (Some (tagID cp)),
                                   eAfterID := textAfterID s\<rparr>
        else (newEdit textInsert)\<lparr>eContent := Some c, eParentID := Some (Some (tagID cp)),
                                   eFirstChild := True\<rparr>]"
  by (auto simp: addTextInsert_def Let_def)

lemma addTextDelete_frame [simp]:
  "edits (addTextDelete cp op s) = edits s"
  "textAfterID (addTextDelete cp op s) = textAfterID s"
  "console (addTextDelete cp op s) = console s"
  "moves (addTextDelete cp op s) = moves s"
  "newEdits (addTextDelete cp op s) =
     (if textMerged s then newEdits s else newEdits s @ [textDeleteEdit cp op s])"
  by (auto simp: addTextDelete_eq)

lemma finalizeNewEdits_frame [simp]:
  "edits (finalizeNewEdits b s) = edits s @ map (beforeIDEdit b) (newEdits s)"
  "textAfterID (finalizeNewEdits b s) = Some b"
  "console (finalizeNewEdits b s) = console s"
  "moves (finalizeNewEdits b s) = moves s"
  "newEdits (finalizeNewEdits b s) = []"
  by (auto simp: finalizeNewEdits_def)

lemma fixupElementInsert_frame [simp]:
  "edits (fixupElementInsert s) = edits s"
  "textAfterID (fixupElementInsert s) = textAfterID s"
  "console (fixupElementInsert s) = console s"
  "moves (fixupElementInsert s) = moves s"
  "newEdits (fixupElementInsert s) = map beforeTextEdit (newEdits s)"
  by (auto simp: fixupElementInsert_def)

lemma hasMoved_Text [simp]: "\<not> hasMoved nm (Text t g)"
  by (simp add: hasMoved_def)

section \<open>Text edits under an old parent with one child\<close>

text \<open>
  A \<^verbatim>\<open>textDelete\<close> or \<^verbatim>\<open>textReplace\<close> edit with nothing but its type, content and
  \<^verbatim>\<open>parentID\<close>.
\<close>

definition unanchored :: "edit \<Rightarrow> bool" where
  "unanchored e =
     (eType e = textDelete \<or> eType e = textReplace \<longrightarrow>
        eParentID e \<noteq> None \<and> eAfterID e = None \<and> eBeforeID e = None \<and>
        \<not> eFirstChild e \<and> \<not> eLastChild e \<and> \<not> eBeforeText e)"

lemma unanchored_simps [simp]:
  "unanchored ((newEdit elementMove)\<lparr>eTagID := i, eParentID := p\<rparr>)"
  "unanchored ((newEdit elementInsert)\<lparr>eTag := t, eTagID := i, eParentID := p, eAttributes := a\<rparr>)"
  "unanchored ((newEdit elementDelete)\<lparr>eTagID := i\<rparr>)"
  "unanchored ((newEdit textInsert)\<lparr>eContent := c, eParentID := p, eAfterID := a'\<rparr>)"
  "unanchored ((newEdit textInsert)\<lparr>eContent := c, eParentID := p, eFirstChild := True\<rparr>)"
  "unanchored ((newEdit textReplace)\<lparr>eContent := c, eParentID := Some q\<rparr>)"
  "unanchored (beforeTextEdit e) = unanchored e"
  "unanchored (lastChildEdit e) = unanchored e"
  by (auto simp: unanchored_def newEdit_def beforeTextEdit_def lastChildEdit_def)

lemma unanchored_textDeleteEdit:
  "length (oldChildrenOf op) = 1 \<or> textAfterID s = None \<Longrightarrow> unanchored (textDeleteEdit cp op s)"
  by (auto simp: unanchored_def textDeleteEdit_fields truthy_def)

text \<open>The only old child is a text.\<close>

definition onlyTextInv :: "edit list \<Rightarrow> cstate \<Rightarrow> bool" where
  "onlyTextInv es s =
     (edits s = es \<and> (\<forall>e\<in>set (newEdits s). unanchored e) \<and>
      (oldIndex s = 0 \<longrightarrow> textAfterID s = None))"

lemma onlyTextInv_compareStep:
  assumes "oldChildrenOf op = [Text t g]" and "onlyTextInv es s"
      and "oldIndex s < length (oldChildrenOf op)"
  shows "onlyTextInv es (compareStep om nm cp op s)"
  using assms
  unfolding compareStep_def Let_def onlyTextInv_def
  by (auto split: node.splits bool.splits
      simp: split_beta unanchored_textDeleteEdit truthy_def)

lemma onlyTextInv_oldDrainStep:
  assumes "oldChildrenOf op = [Text t g]" and "onlyTextInv es s"
      and "oldIndex s < length (oldChildrenOf op)"
  shows "onlyTextInv es (oldDrainStep nm cp op s)"
  using assms
  unfolding oldDrainStep_def Let_def onlyTextInv_def
  by (auto split: node.splits bool.splits
      simp: split_beta unanchored_textDeleteEdit)

definition pendingUnanchored :: "edit list \<Rightarrow> cstate \<Rightarrow> bool" where
  "pendingUnanchored es s = (edits s = es \<and> (\<forall>e\<in>set (newEdits s). unanchored e))"

lemma pendingUnanchored_newDrainStep:
  "pendingUnanchored es s \<Longrightarrow> pendingUnanchored es (newDrainStep om cp s)"
  unfolding newDrainStep_def Let_def pendingUnanchored_def
  by (auto split: node.splits bool.splits simp: split_beta)


text \<open>The only old child is an element.\<close>

definition noTextEdit :: "edit \<Rightarrow> bool" where
  "noTextEdit e = (eType e \<noteq> textDelete \<and> eType e \<noteq> textReplace)"

lemma noTextEdit_simps [simp]:
  "noTextEdit ((newEdit elementMove)\<lparr>eTagID := i, eParentID := p\<rparr>)"
  "noTextEdit ((newEdit elementInsert)\<lparr>eTag := t, eTagID := i, eParentID := p, eAttributes := a\<rparr>)"
  "noTextEdit ((newEdit elementDelete)\<lparr>eTagID := i\<rparr>)"
  "noTextEdit ((newEdit textInsert)\<lparr>eContent := c, eParentID := p, eAfterID := a'\<rparr>)"
  "noTextEdit ((newEdit textInsert)\<lparr>eContent := c, eParentID := p, eFirstChild := True\<rparr>)"
  "noTextEdit (beforeTextEdit e) = noTextEdit e"
  "noTextEdit (beforeIDEdit b e) = noTextEdit e"
  "noTextEdit (lastChildEdit e) = noTextEdit e"
  by (auto simp: noTextEdit_def newEdit_def)

definition onlyElemInv :: "edit list \<Rightarrow> cstate \<Rightarrow> bool" where
  "onlyElemInv es s =
     ((\<exists>xs. edits s = es @ xs \<and> (\<forall>e\<in>set xs. noTextEdit e)) \<and>
      (\<forall>e\<in>set (newEdits s). noTextEdit e))"

lemma onlyElemInv_compareStep:
  assumes "oldChildrenOf op = [Elem oe]" and "onlyElemInv es s"
      and "oldIndex s < length (oldChildrenOf op)"
  shows "onlyElemInv es (compareStep om nm cp op s)"
  using assms
  unfolding compareStep_def Let_def onlyElemInv_def
  by (auto split: node.splits bool.splits simp: split_beta)

lemma onlyElemInv_oldDrainStep:
  assumes "oldChildrenOf op = [Elem oe]" and "onlyElemInv es s"
      and "oldIndex s < length (oldChildrenOf op)"
  shows "onlyElemInv es (oldDrainStep nm cp op s)"
  using assms
  unfolding oldDrainStep_def Let_def onlyElemInv_def
  by (auto split: node.splits bool.splits simp: split_beta)

lemma onlyElemInv_newDrainStep:
  "onlyElemInv es s \<Longrightarrow> onlyElemInv es (newDrainStep om cp s)"
  unfolding newDrainStep_def Let_def onlyElemInv_def
  by (auto split: node.splits bool.splits simp: split_beta)

lemma single_old_child:
  assumes "length (oldChildrenOf op) = 1"
  shows "\<exists>xs. edits (generateChildEdits om nm cp op d) = edits d @ xs \<and>
              (\<forall>e\<in>set xs. unanchored e)"
proof -
  from assms obtain n where n: "oldChildrenOf op = [n]"
    by (cases "oldChildrenOf op") auto
  let ?s = "childLoops om nm cp op d"
  show ?thesis
  proof (cases n)
    case (Text t g)
    with n have old: "oldChildrenOf op = [Text t g]" by simp
    have "onlyTextInv (edits d) (childState d)"
      by (simp add: onlyTextInv_def childState_def)
    then have "onlyTextInv (edits d) (compareLoop om nm cp op (childState d))"
      by (rule compareLoop_invariant [where I = "onlyTextInv (edits d)", rotated])
         (rule onlyTextInv_compareStep [OF old])
    then have "onlyTextInv (edits d) (oldDrainLoop nm cp op (compareLoop om nm cp op (childState d)))"
      by (rule oldDrainLoop_invariant [where I = "onlyTextInv (edits d)", rotated])
         (rule onlyTextInv_oldDrainStep [OF old])
    then have "pendingUnanchored (edits d)
                 (oldDrainLoop nm cp op (compareLoop om nm cp op (childState d)))"
      by (simp add: onlyTextInv_def pendingUnanchored_def)
    then have "pendingUnanchored (edits d) ?s"
      unfolding childLoops_def
      by (rule newDrainLoop_invariant [where I = "pendingUnanchored (edits d)", rotated])
         (rule pendingUnanchored_newDrainStep)
    then have "edits (generateChildEdits om nm cp op d)
                 = edits d @ map lastChildEdit (newEdits ?s)"
        and "\<forall>e\<in>set (map lastChildEdit (newEdits ?s)). unanchored e"
      by (simp_all add: pendingUnanchored_def generateChildEdits_childLoops)
    then show ?thesis by blast
  next
    case (Elem oe)
    with n have old: "oldChildrenOf op = [Elem oe]" by simp
    have "onlyElemInv (edits d) (childState d)"
      by (simp add: onlyElemInv_def childState_def)
    then have "onlyElemInv (edits d) ?s"
      by (rule childLoops_invariant [where I = "onlyElemInv (edits d)", rotated 3])
         (rule onlyElemInv_compareStep [OF old] onlyElemInv_oldDrainStep [OF old]
            onlyElemInv_newDrainStep; assumption)+
    then obtain xs where xs: "edits ?s = edits d @ xs" "\<forall>e\<in>set xs. noTextEdit e"
        and ne: "\<forall>e\<in>set (newEdits ?s). noTextEdit e"
      by (auto simp: onlyElemInv_def)
    have "edits (generateChildEdits om nm cp op d)
            = edits d @ (xs @ map lastChildEdit (newEdits ?s))"
      by (simp add: generateChildEdits_childLoops xs(1))
    moreover have "\<forall>e\<in>set (xs @ map lastChildEdit (newEdits ?s)). unanchored e"
      using xs(2) ne by (auto simp: unanchored_def noTextEdit_def)
    ultimately show ?thesis by blast
  qed
qed


section \<open>Moved children\<close>

text \<open>An \<^verbatim>\<open>elementMove\<close> edit of the child \<open>ce\<close> to the parent \<open>cp\<close>.\<close>

definition isMoveOf :: "element \<Rightarrow> element \<Rightarrow> edit \<Rightarrow> bool" where
  "isMoveOf cp ce e =
     (eType e = elementMove \<and> eTagID e = Some (tagID ce)
        \<and> eParentID e = Some (Some (tagID cp)))"

lemma isMoveOf_simps [simp]:
  "isMoveOf cp ce (beforeIDEdit b e) = isMoveOf cp ce e"
  "isMoveOf cp ce (beforeTextEdit e) = isMoveOf cp ce e"
  "isMoveOf cp ce (lastChildEdit e) = isMoveOf cp ce e"
  "isMoveOf cp ce ((newEdit elementMove)\<lparr>eTagID := Some (tagID ce),
                      eParentID := Some (Some (tagID cp))\<rparr>)"
  by (simp_all add: isMoveOf_def newEdit_def)

definition hasMove :: "element \<Rightarrow> element \<Rightarrow> cstate \<Rightarrow> bool" where
  "hasMove cp ce s = (\<exists>e\<in>set (edits s) \<union> set (newEdits s). isMoveOf cp ce e)"


lemma hasMove_indices [simp]:
  "hasMove cp ce (s\<lparr>currentIndex := i\<rparr>) = hasMove cp ce s"
  "hasMove cp ce (s\<lparr>oldIndex := j\<rparr>) = hasMove cp ce s"
  "hasMove cp ce (s\<lparr>console := c\<rparr>) = hasMove cp ce s"
  by (simp_all add: hasMove_def)











































section \<open>Example trees\<close>



text \<open>
  \<open>moveOld\<close> and \<open>moveNew\<close>: element 7 is a child of element 1 in the old tree and of
  element 2 in the new one; nothing else differs.
\<close>

definition move7Old :: element where "move7Old = Element ''b'' 7 [] [Text ''x'' 11] (Some 1) 0 11 11"
definition move7New :: element where "move7New = Element ''b'' 7 [] [Text ''x'' 11] (Some 2) 0 11 11"
definition move1Old :: element where "move1Old = Element ''p'' 1 [] [Elem move7Old] (Some 3) 0 21 22"
definition move1New :: element where "move1New = Element ''p'' 1 [] [] (Some 3) 0 23 24"
definition move2Old :: element where "move2Old = Element ''p'' 2 [] [] (Some 3) 0 23 24"
definition move2New :: element where "move2New = Element ''p'' 2 [] [Elem move7New] (Some 3) 0 21 22"
definition moveRootOld :: element where
  "moveRootOld = Element ''html'' 3 [] [Elem move1Old, Elem move2Old] None 0 31 32"
definition moveRootNew :: element where
  "moveRootNew = Element ''html'' 3 [] [Elem move1New, Elem move2New] None 0 31 33"
definition moveOld :: tree where
  "moveOld = \<lparr>root = moveRootOld,
     nodeMap = [3 \<mapsto> moveRootOld, 1 \<mapsto> move1Old, 2 \<mapsto> move2Old, 7 \<mapsto> move7Old]\<rparr>"
definition moveNew :: tree where
  "moveNew = \<lparr>root = moveRootNew,
     nodeMap = [3 \<mapsto> moveRootNew, 1 \<mapsto> move1New, 2 \<mapsto> move2New, 7 \<mapsto> move7New]\<rparr>"

text \<open>
  \<open>pruneOld\<close> and \<open>pruneNew\<close>: the root is matched and its \<^verbatim>\<open>subtreeSignature\<close> is the
  same (9) in both trees, its \<^verbatim>\<open>childSignature\<close> is not (1 and 2); the new root has
  a child element that the old root does not have.
\<close>

definition pruneNewChild :: element where
  "pruneNewChild = Element ''b'' 2 [] [Text ''x'' 7] (Some 1) 0 7 7"

definition pruneOld :: tree where
  "pruneOld = (let r = Element ''p'' 1 [] [] None 0 1 9 in \<lparr>root = r, nodeMap = [1 \<mapsto> r]\<rparr>)"

definition pruneNew :: tree where
  "pruneNew =
     (let r = Element ''p'' 1 [] [Elem pruneNewChild] None 0 2 9
      in \<lparr>root = r, nodeMap = [1 \<mapsto> r, 2 \<mapsto> pruneNewChild]\<rparr>)"

text \<open>
  \<open>sameSigOld\<close> and \<open>sameSigNew\<close>: the text below the root differs, all three signatures
  of the root are the same.
\<close>

definition sameSigOld :: element where
  "sameSigOld = Element ''p'' 1 [] [Text ''a'' 5] None 0 1 9"

definition sameSigNew :: element where
  "sameSigNew = Element ''p'' 1 [] [Text ''b'' 6] None 0 1 9"



text \<open>\<open>textOnly\<close>: a root with one text child.\<close>

definition textOnly :: tree where
  "textOnly = \<lparr>root = Element ''p'' 1 [] [Text ''x'' 7] None 0 7 7,
                nodeMap = [1 \<mapsto> Element ''p'' 1 [] [Text ''x'' 7] None 0 7 7]\<rparr>"

text \<open>
  \<open>textBeforeOld\<close> and \<open>textBeforeNew\<close>: the new root has a text before the element
  that was the only child of the old root.
\<close>

definition textBeforeOld :: tree where
  "textBeforeOld =
     (let a = Element ''a'' 2 [] [] (Some 1) 0 0 0;
          r = Element ''p'' 1 [] [Elem a] None 0 1 1
      in \<lparr>root = r, nodeMap = [1 \<mapsto> r, 2 \<mapsto> a]\<rparr>)"

definition textBeforeNew :: tree where
  "textBeforeNew =
     (let a = Element ''a'' 2 [] [] (Some 1) 0 0 0;
          r = Element ''p'' 1 [] [Text ''t'' 4, Elem a] None 0 2 2
      in \<lparr>root = r, nodeMap = [1 \<mapsto> r, 2 \<mapsto> a]\<rparr>)"

text \<open>
  \<open>textAfterOld\<close> and \<open>textAfterNew\<close>: the old root has an element and a text after it,
  the new root has the element only.
\<close>

definition textAfterOld :: tree where
  "textAfterOld =
     (let a = Element ''a'' 2 [] [] (Some 1) 0 0 0;
          r = Element ''p'' 1 [] [Elem a, Text ''t'' 4] None 0 2 2
      in \<lparr>root = r, nodeMap = [1 \<mapsto> r, 2 \<mapsto> a]\<rparr>)"

definition textAfterNew :: tree where
  "textAfterNew =
     (let a = Element ''a'' 2 [] [] (Some 1) 0 0 0;
          r = Element ''p'' 1 [] [Elem a] None 0 1 1
      in \<lparr>root = r, nodeMap = [1 \<mapsto> r, 2 \<mapsto> a]\<rparr>)"





definition onlyTextOld :: tree where
  "onlyTextOld =
     (let r = Element ''p'' 1 [] [Text ''a'' 3] None 0 1 1 in \<lparr>root = r, nodeMap = [1 \<mapsto> r]\<rparr>)"

definition onlyTextNew :: tree where
  "onlyTextNew =
     (let b = Element ''b'' 5 [] [] (Some 1) 0 0 0;
          r = Element ''p'' 1 [] [Elem b] None 0 2 2
      in \<lparr>root = r, nodeMap = [1 \<mapsto> r, 5 \<mapsto> b]\<rparr>)"





section \<open>The attribute differ\<close>







section \<open>The driver on unchanged signatures\<close>

text \<open>
  C4. When the same snapshot is given as the old and as the new tree, \<^verbatim>\<open>domdiff\<close>
  returns the empty list. The snapshot's \<^verbatim>\<open>nodeMap\<close> holds its root, as it holds every
  element of the snapshot.
\<close>

theorem domdiff_same_snapshot:
  assumes "nodeMap T (tagID (root T)) = Some (root T)"
  shows "domdiff (Some T) T = []"
proof -
  let ?d = "\<lparr>queue = [root T], edits = [], moves = [], console = []\<rparr>"
  have p: "processElement (nodeMap T) (nodeMap T) ?d
           = \<lparr>queue = [], edits = [], moves = [], console = []\<rparr>"
    using assms by (simp add: processElement_def)
  then have "domdiffLoop (nodeMap T) (nodeMap T) ?d
           = \<lparr>queue = [], edits = [], moves = [], console = []\<rparr>"
    by (simp add: domdiffLoop_last)
  then show ?thesis
    by (simp add: domdiff_def domdiffState_def oldNodeMapOf_def)
qed

theorem domdiff_same_snapshot_witness:
  "nodeMap moveOld (tagID (root moveOld)) = Some (root moveOld) \<and>
   domdiff (Some moveOld) moveOld = []"
  using domdiff_same_snapshot [of moveOld]
  by (simp add: moveOld_def moveRootOld_def)

text \<open>
  C6, as the claim states it, does not hold: in \<open>pruneOld\<close> and \<open>pruneNew\<close> the root is
  matched and its \<^verbatim>\<open>subtreeSignature\<close> is unchanged, yet \<^verbatim>\<open>domdiff\<close> inserts the new
  child of the root, queues it, descends into it and inserts its text. The test of
  \<^verbatim>\<open>childSignature\<close> is made on its own, whatever \<^verbatim>\<open>subtreeSignature\<close> says.
\<close>

theorem pruning_counterexample:
  "nodeMap pruneOld (tagID (root pruneNew)) = Some (root pruneOld) \<and>
   subtreeSignature (root pruneNew) = subtreeSignature (root pruneOld) \<and>
   domdiff (Some pruneOld) pruneNew =
     [(newEdit elementInsert)\<lparr>eTag := Some ''b'', eTagID := Some 2,
          eParentID := Some (Some 1), eAttributes := Some [], eLastChild := True\<rparr>,
      (newEdit textInsert)\<lparr>eContent := Some ''x'', eParentID := Some (Some 2),
          eLastChild := True\<rparr>]"
  by code_simp

text \<open>
  C6, amended. When the driver takes from the queue an element that is matched in the
  old tree, and both its \<^verbatim>\<open>subtreeSignature\<close> and its \<^verbatim>\<open>childSignature\<close> are those of
  the old element, it queues nothing and generates no edit but the attribute edits of
  the element itself (those only when \<^verbatim>\<open>attributeSignature\<close> differs), whatever the
  children of the two elements are. For the root this is the whole run: \<^verbatim>\<open>domdiff\<close>
  returns the attribute edits of the root, or the empty list.
\<close>

theorem processElement_pruned:
  "(queue d = q @ [currentElement]
     \<and> oldNodeMap (tagID currentElement) = Some oldElement
     \<and> subtreeSignature currentElement = subtreeSignature oldElement
     \<and> childSignature currentElement = childSignature oldElement
    \<longrightarrow> processElement oldNodeMap newNodeMap d =
          d\<lparr>queue := q,
            edits := (if attributeSignature currentElement \<noteq> attributeSignature oldElement
                      then generateAttributeEdits (edits d) oldElement currentElement
                      else edits d)\<rparr>)
   \<and>
   (oldNodeMapOf oldNode (tagID (root newNode)) = Some oldRoot
     \<and> subtreeSignature (root newNode) = subtreeSignature oldRoot
     \<and> childSignature (root newNode) = childSignature oldRoot
    \<longrightarrow> domdiff oldNode newNode =
          (if attributeSignature (root newNode) \<noteq> attributeSignature oldRoot
           then generateAttributeEdits [] oldRoot (root newNode) else []))"
proof (intro conjI impI)
  assume "queue d = q @ [currentElement]
     \<and> oldNodeMap (tagID currentElement) = Some oldElement
     \<and> subtreeSignature currentElement = subtreeSignature oldElement
     \<and> childSignature currentElement = childSignature oldElement"
  then show "processElement oldNodeMap newNodeMap d =
          d\<lparr>queue := q,
            edits := (if attributeSignature currentElement \<noteq> attributeSignature oldElement
                      then generateAttributeEdits (edits d) oldElement currentElement
                      else edits d)\<rparr>"
    by (simp add: processElement_def)
next
  let ?d = "\<lparr>queue = [root newNode], edits = [], moves = [], console = []\<rparr>"
  let ?es = "if attributeSignature (root newNode) \<noteq> attributeSignature oldRoot
             then generateAttributeEdits [] oldRoot (root newNode) else []"
  assume a: "oldNodeMapOf oldNode (tagID (root newNode)) = Some oldRoot
     \<and> subtreeSignature (root newNode) = subtreeSignature oldRoot
     \<and> childSignature (root newNode) = childSignature oldRoot"
  then have p: "processElement (oldNodeMapOf oldNode) (nodeMap newNode) ?d
           = \<lparr>queue = [], edits = ?es, moves = [], console = []\<rparr>"
    by (simp add: processElement_def)
  then have "domdiffLoop (oldNodeMapOf oldNode) (nodeMap newNode) ?d
           = \<lparr>queue = [], edits = ?es, moves = [], console = []\<rparr>"
    by (simp add: domdiffLoop_last)
  then show "domdiff oldNode newNode = ?es"
    by (simp add: domdiff_def domdiffState_def)
qed

theorem processElement_pruned_witness:
  "children sameSigNew \<noteq> children sameSigOld \<and>
   subtreeSignature sameSigNew = subtreeSignature sameSigOld \<and>
   childSignature sameSigNew = childSignature sameSigOld \<and>
   processElement [1 \<mapsto> sameSigOld] [1 \<mapsto> sameSigNew]
       \<lparr>queue = [sameSigNew], edits = [], moves = [], console = []\<rparr> =
     \<lparr>queue = [], edits = [], moves = [], console = []\<rparr> \<and>
   domdiff (Some \<lparr>root = sameSigOld, nodeMap = [1 \<mapsto> sameSigOld]\<rparr>)
       \<lparr>root = sameSigNew, nodeMap = [1 \<mapsto> sameSigNew]\<rparr> = []"
  using processElement_pruned [of "\<lparr>queue = [sameSigNew], edits = [], moves = [], console = []\<rparr>"
      "[]" sameSigNew "[1 \<mapsto> sameSigOld]" sameSigOld "[1 \<mapsto> sameSigNew]"
      "Some \<lparr>root = sameSigOld, nodeMap = [1 \<mapsto> sameSigOld]\<rparr>"
      "\<lparr>root = sameSigNew, nodeMap = [1 \<mapsto> sameSigNew]\<rparr>" sameSigOld]
  by (simp add: sameSigOld_def sameSigNew_def oldNodeMapOf_def)

section \<open>Alignment anomalies\<close>




section \<open>The fields of a text insert\<close>

text \<open>
  C10, as the claim states it, does not hold: a text insert that is still pending when
  \<^verbatim>\<open>generateChildEdits\<close> ends gets \<^verbatim>\<open>lastChild\<close> and loses \<^verbatim>\<open>firstChild\<close> and
  \<^verbatim>\<open>afterID\<close>, so it has neither of the two. On the first rendering of \<open>textOnly\<close> the
  text insert has \<^verbatim>\<open>content\<close>, \<^verbatim>\<open>parentID\<close> and \<^verbatim>\<open>lastChild\<close> only.
\<close>

theorem textInsert_fields_counterexample:
  "domdiff None textOnly =
     [(newEdit elementInsert)\<lparr>eTag := Some ''p'', eTagID := Some 1, eParentID := Some None,
          eAttributes := Some []\<rparr>,
      (newEdit textInsert)\<lparr>eContent := Some ''x'', eParentID := Some (Some 1),
          eLastChild := True\<rparr>]
   \<and> \<not> (\<forall>e\<in>set (domdiff None textOnly). eType e = textInsert \<longrightarrow>
           ((eAfterID e \<noteq> None) \<noteq> eFirstChild e))"
proof -
   have a: "domdiff None textOnly =
     [(newEdit elementInsert)\<lparr>eTag := Some ''p'', eTagID := Some 1, eParentID := Some None,
          eAttributes := Some []\<rparr>,
      (newEdit textInsert)\<lparr>eContent := Some ''x'', eParentID := Some (Some 1),
          eLastChild := True\<rparr>]"
    by code_simp
  show ?thesis unfolding a by (simp add: newEdit_def)
qed

text \<open>
  C10, amended. Every \<^verbatim>\<open>textInsert\<close> edit of the returned list has \<^verbatim>\<open>content\<close> and
  \<^verbatim>\<open>parentID\<close>, and exactly one of \<^verbatim>\<open>afterID\<close>, \<^verbatim>\<open>firstChild\<close> and \<^verbatim>\<open>lastChild\<close>: with
  \<^verbatim>\<open>lastChild\<close> it has neither \<^verbatim>\<open>afterID\<close> nor \<^verbatim>\<open>firstChild\<close> nor \<^verbatim>\<open>beforeID\<close>; without
  \<^verbatim>\<open>lastChild\<close> it has \<^verbatim>\<open>beforeID\<close> and exactly one of \<^verbatim>\<open>afterID\<close> and \<^verbatim>\<open>firstChild\<close>.
\<close>

theorem textInsert_fields:
  "\<forall>e\<in>set (domdiff oldNode newNode). eType e = textInsert \<longrightarrow>
     eContent e \<noteq> None \<and> eParentID e \<noteq> None \<and>
     (if eLastChild e then eAfterID e = None \<and> \<not> eFirstChild e \<and> eBeforeID e = None
      else ((eAfterID e \<noteq> None) \<noteq> eFirstChild e) \<and> eBeforeID e \<noteq> None)"
proof (intro ballI impI)
  fix e assume e: "e \<in> set (domdiff oldNode newNode)" and t: "eType e = textInsert"
  from domdiff_edits [OF e] t have "e \<in> set (edits (domdiffState oldNode newNode))"
    by (auto simp: newEdit_def)
  with finalInv_domdiffState [of oldNode newNode]
  have "finalEdit (oldNodeMapOf oldNode) (nodeMap newNode) e"
    by (simp add: finalInv_def)
  from final_textInsert [OF this t]
  show "eContent e \<noteq> None \<and> eParentID e \<noteq> None \<and>
     (if eLastChild e then eAfterID e = None \<and> \<not> eFirstChild e \<and> eBeforeID e = None
      else ((eAfterID e \<noteq> None) \<noteq> eFirstChild e) \<and> eBeforeID e \<noteq> None)" .
qed

theorem textInsert_fields_witness:
  "(newEdit textInsert)\<lparr>eContent := Some ''t'', eParentID := Some (Some 1),
       eBeforeID := Some 2, eFirstChild := True\<rparr> \<in> set (domdiff (Some textBeforeOld) textBeforeNew)
   \<and> (newEdit textInsert)\<lparr>eContent := Some ''x'', eParentID := Some (Some 1),
       eLastChild := True\<rparr> \<in> set (domdiff None textOnly)"
proof -
  have a: "domdiff (Some textBeforeOld) textBeforeNew =
     [(newEdit textInsert)\<lparr>eContent := Some ''t'', eParentID := Some (Some 1),
       eBeforeID := Some 2, eFirstChild := True\<rparr>]"
    by code_simp
  have b: "domdiff None textOnly =
     [(newEdit elementInsert)\<lparr>eTag := Some ''p'', eTagID := Some 1, eParentID := Some None,
          eAttributes := Some []\<rparr>,
      (newEdit textInsert)\<lparr>eContent := Some ''x'', eParentID := Some (Some 1),
          eLastChild := True\<rparr>]"
    by code_simp
  show ?thesis
    using textInsert_fields [of "Some textBeforeOld" textBeforeNew]
      textInsert_fields [of None textOnly]
    unfolding a b by (simp add: newEdit_def)
qed


section \<open>rememberNodes\<close>

text \<open>
  C3. The returned list has a \<^verbatim>\<open>rememberNodes\<close> edit if and only if it has an
  \<^verbatim>\<open>elementMove\<close> edit. When it has one, the \<^verbatim>\<open>rememberNodes\<close> edit is the first edit
  of the list, no other edit of the list is a \<^verbatim>\<open>rememberNodes\<close>, and its \<^verbatim>\<open>tagIDs\<close> are
  the identities of the \<^verbatim>\<open>elementMove\<close> edits of the list, every one of them, in the
  order of the edits.
\<close>

theorem rememberNodes_iff_moves:
  "((\<exists>e\<in>set (domdiff oldNode newNode). eType e = rememberNodes)
      \<longleftrightarrow> (\<exists>e\<in>set (domdiff oldNode newNode). eType e = elementMove))
   \<and> ((\<exists>e\<in>set (domdiff oldNode newNode). eType e = elementMove) \<longrightarrow>
        (\<exists>tagIDs rest.
           domdiff oldNode newNode = (newEdit rememberNodes)\<lparr>eTagIDs := Some tagIDs\<rparr> # rest
           \<and> (\<forall>e\<in>set rest. eType e \<noteq> rememberNodes)
           \<and> map eTagID (filter (\<lambda>e. eType e = elementMove) rest) = map Some tagIDs))"
proof -
  let ?d = "domdiffState oldNode newNode"
  have nr: "\<forall>e\<in>set (edits ?d). eType e \<noteq> rememberNodes"
    using domdiffState_no_rememberNodes by blast
  have mv: "map Some (moves ?d) = moveIDs (edits ?d)"
    by (rule moves_domdiffState)
  from domdiff_shape [of oldNode newNode] show ?thesis
  proof
    assume a: "moveIDs (edits ?d) = [] \<and> domdiff oldNode newNode = edits ?d"
    then have "\<forall>e\<in>set (edits ?d). eType e \<noteq> elementMove"
      by (simp add: moveIDs_empty_iff)
    with a nr show ?thesis by auto
  next
    assume a: "moveIDs (edits ?d) \<noteq> [] \<and>
      domdiff oldNode newNode = (newEdit rememberNodes)\<lparr>eTagIDs := Some (moves ?d)\<rparr> # edits ?d"
    then have "\<exists>e\<in>set (edits ?d). eType e = elementMove"
      by (simp add: moveIDs_empty_iff)
    moreover have "map eTagID (filter (\<lambda>e. eType e = elementMove) (edits ?d)) = map Some (moves ?d)"
      using mv by (simp add: moveIDs_def)
    ultimately show ?thesis
      using a nr by (auto simp: newEdit_def)
  qed
qed

theorem rememberNodes_iff_moves_witness:
  "domdiff (Some moveOld) moveNew =
     [(newEdit rememberNodes)\<lparr>eTagIDs := Some [7]\<rparr>,
      (newEdit elementMove)\<lparr>eTagID := Some 7, eParentID := Some (Some 2),
          eLastChild := True\<rparr>]
   \<and> (\<exists>e\<in>set (domdiff (Some moveOld) moveNew). eType e = elementMove)
   \<and> (\<exists>e\<in>set (domdiff (Some moveOld) moveNew). eType e = rememberNodes)"
proof -
  have a: "domdiff (Some moveOld) moveNew =
     [(newEdit rememberNodes)\<lparr>eTagIDs := Some [7]\<rparr>,
      (newEdit elementMove)\<lparr>eTagID := Some 7, eParentID := Some (Some 2),
          eLastChild := True\<rparr>]"
    by code_simp
  have b: "\<exists>e\<in>set (domdiff (Some moveOld) moveNew). eType e = elementMove"
    unfolding a by (simp add: newEdit_def)
  with rememberNodes_iff_moves [of "Some moveOld" moveNew]
  have "\<exists>e\<in>set (domdiff (Some moveOld) moveNew). eType e = rememberNodes"
    by blast
  with a b show ?thesis by blast
qed


section \<open>Removed text\<close>

text \<open>
  C9, as the claim states it, does not hold: the test of \<^verbatim>\<open>addTextDelete\<close> is on the
  number of children the old parent had, not on the number the parent ends up with. In
  \<open>textAfterOld\<close> and \<open>textAfterNew\<close> the parent ends up with exactly one child, and the
  \<^verbatim>\<open>textDelete\<close> edit has \<^verbatim>\<open>afterID\<close>.
\<close>

theorem single_child_counterexample:
  "length (children (root textAfterNew)) = 1 \<and>
   domdiff (Some textAfterOld) textAfterNew =
     [(newEdit textDelete)\<lparr>eParentID := Some (Some 1), eAfterID := Some 2\<rparr>]"
proof -
  have "length (children (root textAfterNew)) = 1"
    by (simp add: textAfterNew_def Let_def)
  moreover have "domdiff (Some textAfterOld) textAfterNew =
     [(newEdit textDelete)\<lparr>eParentID := Some (Some 1), eAfterID := Some 2\<rparr>]"
    by code_simp
  ultimately show ?thesis by blast
qed

text \<open>
  C9, amended. When the old parent had exactly one child, every \<^verbatim>\<open>textDelete\<close> and
  every \<^verbatim>\<open>textReplace\<close> edit that \<^verbatim>\<open>generateChildEdits\<close> adds for it has \<^verbatim>\<open>parentID\<close> and
  no positional anchor: no \<^verbatim>\<open>afterID\<close>, no \<^verbatim>\<open>beforeID\<close>, no \<^verbatim>\<open>firstChild\<close>, no
  \<^verbatim>\<open>lastChild\<close>, no \<^verbatim>\<open>beforeText\<close>.
\<close>

theorem single_old_child_unanchored:
  assumes "length (oldChildrenOf oldParent) = 1"
  shows "\<exists>xs. edits (generateChildEdits oldNodeMap newNodeMap currentParent oldParent d)
                = edits d @ xs \<and>
              (\<forall>e\<in>set xs. eType e = textDelete \<or> eType e = textReplace \<longrightarrow>
                 eParentID e \<noteq> None \<and> eAfterID e = None \<and> eBeforeID e = None \<and>
                 \<not> eFirstChild e \<and> \<not> eLastChild e \<and> \<not> eBeforeText e)"
  using single_old_child [OF assms, of oldNodeMap newNodeMap currentParent d]
  unfolding unanchored_def .

theorem single_old_child_unanchored_witness:
  "length (oldChildrenOf (Some (root onlyTextOld))) = 1 \<and>
   edits (generateChildEdits (nodeMap onlyTextOld) (nodeMap onlyTextNew) (root onlyTextNew)
            (Some (root onlyTextOld)) \<lparr>queue = [], edits = [], moves = [], console = []\<rparr>) =
     [(newEdit textDelete)\<lparr>eParentID := Some (Some 1)\<rparr>,
      (newEdit elementInsert)\<lparr>eTag := Some ''b'', eTagID := Some 5,
          eParentID := Some (Some 1), eAttributes := Some [], eLastChild := True\<rparr>]"
proof -
  have a: "edits (generateChildEdits (nodeMap onlyTextOld) (nodeMap onlyTextNew)
            (root onlyTextNew) (Some (root onlyTextOld))
            \<lparr>queue = [], edits = [], moves = [], console = []\<rparr>) =
     [(newEdit textDelete)\<lparr>eParentID := Some (Some 1)\<rparr>,
      (newEdit elementInsert)\<lparr>eTag := Some ''b'', eTagID := Some 5,
          eParentID := Some (Some 1), eAttributes := Some [], eLastChild := True\<rparr>]"
    by code_simp
  have b: "length (oldChildrenOf (Some (root onlyTextOld))) = 1"
    by (simp add: onlyTextOld_def oldChildrenOf_def Let_def)
  from single_old_child_unanchored [OF b, of "nodeMap onlyTextOld" "nodeMap onlyTextNew"
      "root onlyTextNew" "\<lparr>queue = [], edits = [], moves = [], console = []\<rparr>"] a b
  show ?thesis by simp
qed





section \<open>A moved element\<close>



section \<open>Reordered siblings\<close>


end
